theory Spec2Isabelle
  imports Main "HOL-Library.Word" "HOL-Library.AList"
begin

section \<open>Data model of main.py\<close>

text \<open>
  The metric selector is one of the two strings \<^verbatim>\<open>"distance"\<close> and \<^verbatim>\<open>"cost"\<close>. (Another
  string is no metric: \<^verbatim>\<open>nodes[nearest_node][metric]\<close> raises on it. The type leaves it out.)
\<close>

datatype metric = Distance | Cost

text \<open>
  The exceptions the code can raise: \<^verbatim>\<open>KeyError\<close> on a missing dictionary key (it carries
  the key), \<^verbatim>\<open>IndexError\<close> on an index out of range, \<^verbatim>\<open>TypeError\<close> on a dictionary used
  as a key, \<^verbatim>\<open>OverflowError\<close> on a failed numeric conversion (it carries its message).
\<close>

datatype error = KeyError string | IndexError | TypeError | OverflowError string

text \<open>
  An accumulator holds \<^verbatim>\<open>float("inf")\<close> or a Python integer: 0, or \<^verbatim>\<open>int(x)\<close> of a
  \<^verbatim>\<open>numpy.int64\<close> sum.
\<close>

datatype pyval = Inf | Fin int

text \<open>
  The weights of an edge, \<^verbatim>\<open>{"distance": d, "cost": c}\<close>. The program runs
  \<^verbatim>\<open>calculate_shortest_paths\<close> on the result of \<^verbatim>\<open>create_graph\<close> only, which stores
  \<^verbatim>\<open>numpy.int64\<close> values: the fields hold the values of 64-bit signed integers.
\<close>

record edge =
  edge_distance :: int
  edge_cost :: int

text \<open>
  The state of a vertex in a run,
  \<^verbatim>\<open>{"cost": c, "distance": d, "best_neighbour": p}\<close>.
\<close>

record node =
  cost :: pyval
  distance :: pyval
  best_neighbour :: "string option"

text \<open>
  The graph is a dictionary of dictionaries. The order of its keys decides the order of the
  unvisited list, so it is an association list (with distinct keys, as a dictionary has);
  the node states are only ever looked up by key, so they are a map.
\<close>

type_synonym graph = "(string \<times> (string \<times> edge) list) list"

type_synonym nodes = "string \<rightharpoonup> node"

fun weight :: "metric \<Rightarrow> edge \<Rightarrow> int" where
  "weight Distance e = edge_distance e"
| "weight Cost e = edge_cost e"

fun acc :: "metric \<Rightarrow> node \<Rightarrow> pyval" where
  "acc Distance n = distance n"
| "acc Cost n = cost n"

subsection \<open>Arithmetic on weights and accumulators\<close>

text \<open>
  The sum and the product of \<^verbatim>\<open>numpy.int64\<close> values are \<^verbatim>\<open>numpy.int64\<close> values: they wrap
  around at \<open>2^63\<close> (numpy warns and goes on).
\<close>

definition int64_add :: "int \<Rightarrow> int \<Rightarrow> int" where
  "int64_add a b = sint (word_of_int a + word_of_int b :: 64 word)"

definition int64_mult :: "int \<Rightarrow> int \<Rightarrow> int" where
  "int64_mult a b = sint (word_of_int a * word_of_int b :: 64 word)"

text \<open>
  \<^verbatim>\<open>w + a\<close> for a weight \<^verbatim>\<open>w\<close>, a \<^verbatim>\<open>numpy.int64\<close>, and an accumulator \<^verbatim>\<open>a\<close>: with a Python
  integer (it is in the 64-bit range) the sum is a \<^verbatim>\<open>numpy.int64\<close> and wraps around; with
  \<^verbatim>\<open>inf\<close> it is \<^verbatim>\<open>inf\<close>. No exception is raised.
\<close>

fun py_add :: "int \<Rightarrow> pyval \<Rightarrow> pyval" where
  "py_add w (Fin a) = Fin (int64_add w a)"
| "py_add w Inf = Inf"

text \<open>\<^verbatim>\<open>a < b\<close> on accumulators (\<^verbatim>\<open>a > b\<close> is \<open>py_less b a\<close>).\<close>

fun py_less :: "pyval \<Rightarrow> pyval \<Rightarrow> bool" where
  "py_less (Fin a) (Fin b) = (a < b)"
| "py_less (Fin a) Inf = True"
| "py_less Inf b = False"

text \<open>\<^verbatim>\<open>int(a)\<close>.\<close>

fun py_int :: "pyval \<Rightarrow> error + int" where
  "py_int (Fin a) = Inr a"
| "py_int Inf = Inl (OverflowError ''cannot convert float infinity to integer'')"

section \<open>recalculate_neighbour_position\<close>

text \<open>
  \<^verbatim>\<open>graph[current_node][neighbour_node][metric] + nodes[current_node][metric]\<close>, the
  candidate value of one metric.
\<close>

definition alternate :: "metric \<Rightarrow> graph \<Rightarrow> string \<Rightarrow> nodes \<Rightarrow> string \<Rightarrow> error + pyval" where
  "alternate m graph current_node nodes neighbour_node =
     (case map_of graph current_node of
        None \<Rightarrow> Inl (KeyError current_node)
      | Some row \<Rightarrow>
          (case map_of row neighbour_node of
             None \<Rightarrow> Inl (KeyError neighbour_node)
           | Some e \<Rightarrow>
               (case nodes current_node of
                  None \<Rightarrow> Inl (KeyError current_node)
                | Some c \<Rightarrow> Inr (py_add (weight m e) (acc m c)))))"

text \<open>The condition of the \<^verbatim>\<open>if\<close>: the candidate of the chosen metric is strictly smaller.\<close>

definition improves :: "metric \<Rightarrow> node \<Rightarrow> pyval \<Rightarrow> pyval \<Rightarrow> bool" where
  "improves m n alternate_distance alternate_cost =
     ((m = Distance \<and> py_less alternate_distance (distance n)) \<or>
      (m = Cost \<and> py_less alternate_cost (cost n)))"

text \<open>The body of the \<^verbatim>\<open>for\<close> loop, for one neighbour.\<close>

definition relax :: "metric \<Rightarrow> graph \<Rightarrow> string \<Rightarrow> nodes \<Rightarrow> string \<Rightarrow> error + nodes" where
  "relax m graph current_node nodes neighbour_node =
     (case alternate Distance graph current_node nodes neighbour_node of
        Inl err \<Rightarrow> Inl err
      | Inr alternate_distance \<Rightarrow>
          (case alternate Cost graph current_node nodes neighbour_node of
             Inl err \<Rightarrow> Inl err
           | Inr alternate_cost \<Rightarrow>
               (case nodes neighbour_node of
                  None \<Rightarrow> Inl (KeyError neighbour_node)
                | Some n \<Rightarrow>
                    if improves m n alternate_distance alternate_cost then
                      (case py_int alternate_distance of
                         Inl err \<Rightarrow> Inl err
                       | Inr d \<Rightarrow>
                           (case py_int alternate_cost of
                              Inl err \<Rightarrow> Inl err
                            | Inr c \<Rightarrow>
                                Inr (nodes(neighbour_node \<mapsto>
                                  n\<lparr>distance := Fin d, cost := Fin c,
                                    best_neighbour := Some current_node\<rparr>))))
                    else Inr nodes)))"

text \<open>The \<^verbatim>\<open>for\<close> loop over the neighbours, stopping at the first exception.\<close>

fun relax_all :: "metric \<Rightarrow> graph \<Rightarrow> string \<Rightarrow> string list \<Rightarrow> nodes \<Rightarrow> error + nodes" where
  "relax_all m graph current_node [] nodes = Inr nodes"
| "relax_all m graph current_node (neighbour_node # rest) nodes =
     (case relax m graph current_node nodes neighbour_node of
        Inl err \<Rightarrow> Inl err
      | Inr nodes' \<Rightarrow> relax_all m graph current_node rest nodes')"

definition recalculate_neighbour_position ::
  "graph \<Rightarrow> string \<Rightarrow> nodes \<Rightarrow> metric \<Rightarrow> error + nodes" where
  "recalculate_neighbour_position graph current_node nodes m =
     (case map_of graph current_node of
        None \<Rightarrow> Inl (KeyError current_node)
      | Some row \<Rightarrow> relax_all m graph current_node (map fst row) nodes)"

section \<open>calculate_shortest_paths\<close>

text \<open>The first loop: every key of the graph gets infinite accumulators and no predecessor.\<close>

fun init_nodes :: "string list \<Rightarrow> nodes \<Rightarrow> nodes" where
  "init_nodes [] nodes = nodes"
| "init_nodes (v # vs) nodes =
     init_nodes vs (nodes(v \<mapsto> \<lparr>cost = Inf, distance = Inf, best_neighbour = None\<rparr>))"

text \<open>
  The state at the head of the \<^verbatim>\<open>while\<close> loop is the pair of \<^verbatim>\<open>unvisited_nodes\<close> and
  \<^verbatim>\<open>nodes\<close>. \<open>initial_state\<close> is the code before the loop; the two assignments to
  \<^verbatim>\<open>nodes[starting_vertex]\<close> raise \<^verbatim>\<open>KeyError\<close> when the start is not a key.
\<close>

definition initial_state :: "graph \<Rightarrow> string \<Rightarrow> error + (string list \<times> nodes)" where
  "initial_state graph starting_vertex =
     (let nodes = init_nodes (map fst graph) Map.empty;
          unvisited_nodes = map fst graph
      in case nodes starting_vertex of
           None \<Rightarrow> Inl (KeyError starting_vertex)
         | Some n \<Rightarrow>
             Inr (unvisited_nodes, nodes(starting_vertex \<mapsto> n\<lparr>cost := Fin 0, distance := Fin 0\<rparr>)))"

text \<open>
  The inner \<^verbatim>\<open>for\<close> loop that selects the nearest unvisited node: the first one with the
  least value, since the comparison is strict.
\<close>

fun find_nearest :: "metric \<Rightarrow> nodes \<Rightarrow> string list \<Rightarrow> string \<Rightarrow> pyval \<Rightarrow> error + string" where
  "find_nearest m nodes [] nearest_node minimum_value = Inr nearest_node"
| "find_nearest m nodes (unvisited_node # rest) nearest_node minimum_value =
     (case nodes unvisited_node of
        None \<Rightarrow> Inl (KeyError unvisited_node)
      | Some n \<Rightarrow>
          if py_less (acc m n) minimum_value
          then find_nearest m nodes rest unvisited_node (acc m n)
          else find_nearest m nodes rest nearest_node minimum_value)"

text \<open>
  The selection as a whole: it starts from \<^verbatim>\<open>unvisited_nodes[0]\<close> and its value.
\<close>

definition select_nearest :: "metric \<Rightarrow> nodes \<Rightarrow> string list \<Rightarrow> error + string" where
  "select_nearest m nodes unvisited_nodes =
     (case unvisited_nodes of
        [] \<Rightarrow> Inl IndexError
      | nearest_node # _ \<Rightarrow>
          (case nodes nearest_node of
             None \<Rightarrow> Inl (KeyError nearest_node)
           | Some n \<Rightarrow> find_nearest m nodes unvisited_nodes nearest_node (acc m n)))"

text \<open>
  One iteration of the \<^verbatim>\<open>while\<close> loop: the selection, \<^verbatim>\<open>unvisited_nodes.remove\<close> (the
  first occurrence), and the relaxation of the neighbours.
\<close>

definition loop_body :: "metric \<Rightarrow> graph \<Rightarrow> string list \<times> nodes \<Rightarrow> error + (string list \<times> nodes)" where
  "loop_body m graph st =
     (case select_nearest m (snd st) (fst st) of
        Inl err \<Rightarrow> Inl err
      | Inr current_node \<Rightarrow>
          (case recalculate_neighbour_position graph current_node (snd st) m of
             Inl err \<Rightarrow> Inl err
           | Inr nodes' \<Rightarrow> Inr (remove1 current_node (fst st), nodes')))"

text \<open>
  The selected node is in the unvisited list, so every iteration makes the list shorter:
  the \<^verbatim>\<open>while\<close> loop ends.
\<close>

lemma find_nearest_mem:
  "find_nearest m nodes us v x = Inr u \<Longrightarrow> u = v \<or> u \<in> set us"
  by (induction us arbitrary: v x) (auto split: option.splits if_splits)

lemma select_nearest_mem: "select_nearest m nodes us = Inr u \<Longrightarrow> u \<in> set us"
  by (auto simp: select_nearest_def split: list.splits option.splits dest: find_nearest_mem)

lemma loop_body_length:
  "loop_body m graph (us, nodes) = Inr (us', nodes') \<Longrightarrow> length us' < length us"
proof -
  assume "loop_body m graph (us, nodes) = Inr (us', nodes')"
  then obtain u where u: "select_nearest m nodes us = Inr u" and us': "us' = remove1 u us"
    by (auto simp: loop_body_def split: sum.splits)
  from u have "u \<in> set us" by (rule select_nearest_mem)
  then have "0 < length us" by (rule length_pos_if_in_set)
  with \<open>u \<in> set us\<close> show ?thesis
    using us' by (simp add: length_remove1)
qed

function main_loop :: "metric \<Rightarrow> graph \<Rightarrow> string list \<times> nodes \<Rightarrow> error + nodes" where
  "main_loop m graph (unvisited_nodes, nodes) =
     (if unvisited_nodes = [] then Inr nodes
      else (case loop_body m graph (unvisited_nodes, nodes) of
              Inl err \<Rightarrow> Inl err
            | Inr st' \<Rightarrow> main_loop m graph st'))"
  by pat_completeness auto
termination
  by (relation "measure (\<lambda>(m, graph, st). length (fst st))") (auto dest: loop_body_length)

text \<open>\<open>calculate_shortest_paths\<close>: the initialisation, then the loop.\<close>

definition calculate_shortest_paths :: "metric \<Rightarrow> graph \<Rightarrow> string \<Rightarrow> error + nodes" where
  "calculate_shortest_paths m graph starting_vertex =
     (case initial_state graph starting_vertex of
        Inl err \<Rightarrow> Inl err
      | Inr st \<Rightarrow> main_loop m graph st)"

section \<open>get_best_path\<close>

text \<open>
  The \<^verbatim>\<open>while True\<close> loop follows the predecessor links and may run forever on a cycle:
  \<open>None\<close> is "does not return".
\<close>

partial_function (option) follow :: "nodes \<Rightarrow> string \<Rightarrow> string list \<Rightarrow> (error + string list) option" where
  "follow nodes destination path =
     (case nodes destination of
        None \<Rightarrow> Some (Inl (KeyError destination))
      | Some n \<Rightarrow>
          (case best_neighbour n of
             None \<Rightarrow> Some (Inr path)
           | Some d \<Rightarrow> follow nodes d (path @ [d])))"

declare follow.simps [code]

text \<open>The rendering: the reversed path, each label followed by \<^verbatim>\<open>"-"\<close>, the last character cut.\<close>

definition render :: "string list \<Rightarrow> string" where
  "render path = butlast (concat (map (\<lambda>node. node @ ''-'') (rev path)))"

text \<open>\<open>get_best_path\<close>: the walk from the destination, then the rendering.\<close>

definition get_best_path :: "nodes \<Rightarrow> string \<Rightarrow> (error + string) option" where
  "get_best_path nodes destination =
     (case follow nodes destination [destination] of
        None \<Rightarrow> None
      | Some (Inl err) \<Rightarrow> Some (Inl err)
      | Some (Inr path) \<Rightarrow> Some (Inr (render path)))"

section \<open>create_graph\<close>

text \<open>
  \<^verbatim>\<open>get_dictionary_from_csv\<close> reads the file; its result, the list of the table's rows, is the
  argument of the model. A row is the dictionary of \<^verbatim>\<open>csv.DictReader\<close>: column name to cell
  text, in the order of the columns (distinct names). While a row is processed its values
  are texts and weight dictionaries.
\<close>

datatype cell = Text string | Weights edge

text \<open>
  \<^verbatim>\<open>re.findall("[0-9]+", values)\<close>: the maximal runs of ASCII digits, from left to right;
  \<open>run\<close> is the run being read.
\<close>

definition is_digit :: "char \<Rightarrow> bool" where
  "is_digit c \<longleftrightarrow> c \<in> set ''0123456789''"

fun findall_digits :: "string \<Rightarrow> string \<Rightarrow> string list" where
  "findall_digits run [] = (if run = [] then [] else [run])"
| "findall_digits run (c # cs) =
     (if is_digit c then findall_digits (run @ [c]) cs
      else if run = [] then findall_digits [] cs
      else run # findall_digits [] cs)"

text \<open>The decimal value of a run of digits.\<close>

definition digit_value :: "char \<Rightarrow> int" where
  "digit_value c = int (of_char c) - 48"

definition int_of_digits :: "string \<Rightarrow> int" where
  "int_of_digits ds = foldl (\<lambda>n c. 10 * n + digit_value c) 0 ds"

text \<open>
  \<^verbatim>\<open>numpy.array(...).astype(int)\<close>: the values as 64-bit integers; a value that does not fit
  raises \<^verbatim>\<open>OverflowError\<close>.
\<close>

definition extract_numbers :: "string \<Rightarrow> error + int list" where
  "extract_numbers values =
     (let numbers = map int_of_digits (findall_digits [] values)
      in if list_ex (\<lambda>n. 2 ^ 63 \<le> n) numbers
         then Inl (OverflowError ''Python int too large to convert to C long'')
         else Inr numbers)"

text \<open>
  The inner \<^verbatim>\<open>for\<close> loop over the items of the row's copy after the first one; \<open>row\<close> is the
  row being changed.
\<close>

fun process_cells :: "(string \<times> string) list \<Rightarrow> (string \<times> cell) list \<Rightarrow> error + (string \<times> cell) list" where
  "process_cells [] row = Inr row"
| "process_cells ((ending_point, values) # rest) row =
     (case extract_numbers values of
        Inl err \<Rightarrow> Inl err
      | Inr numbers \<Rightarrow>
          if 0 \<in> set numbers then
            (case map_of row ending_point of
               None \<Rightarrow> Inl (KeyError ending_point)
             | Some _ \<Rightarrow> process_cells rest (AList.delete ending_point row))
          else
            (case numbers of
               n0 # n1 # _ \<Rightarrow>
                 process_cells rest
                   (AList.update ending_point
                      (Weights \<lparr>edge_distance = n0, edge_cost = int64_mult n0 n1\<rparr>) row)
             | _ \<Rightarrow> Inl IndexError))"

text \<open>
  The body of the outer loop for one row: the cells, then \<^verbatim>\<open>row["POINT"]\<close> and
  \<^verbatim>\<open>row.pop("POINT")\<close>. A starting point that is a weight dictionary cannot be a key of
  \<^verbatim>\<open>connections\<close> (\<^verbatim>\<open>TypeError\<close>).
\<close>

definition process_row :: "(string \<times> string) list \<Rightarrow> error + (string \<times> (string \<times> cell) list)" where
  "process_row csv_row =
     (case process_cells (drop 1 csv_row) (map (\<lambda>(column, values). (column, Text values)) csv_row) of
        Inl err \<Rightarrow> Inl err
      | Inr row \<Rightarrow>
          (case map_of row ''POINT'' of
             None \<Rightarrow> Inl (KeyError ''POINT'')
           | Some (Weights _) \<Rightarrow> Inl TypeError
           | Some (Text starting_point) \<Rightarrow> Inr (starting_point, AList.delete ''POINT'' row)))"

text \<open>The outer loop; \<^verbatim>\<open>connections[starting_point] = row\<close> replaces an earlier entry.\<close>

fun add_rows :: "(string \<times> string) list list \<Rightarrow> (string \<times> (string \<times> cell) list) list \<Rightarrow>
    error + (string \<times> (string \<times> cell) list) list" where
  "add_rows [] connections = Inr connections"
| "add_rows (csv_row # rest) connections =
     (case process_row csv_row of
        Inl err \<Rightarrow> Inl err
      | Inr (starting_point, row) \<Rightarrow>
          add_rows rest (AList.update starting_point row connections))"

definition create_graph :: "(string \<times> string) list list \<Rightarrow> error + (string \<times> (string \<times> cell) list) list" where
  "create_graph dictionary = add_rows dictionary []"

section \<open>Vocabulary of the properties\<close>

text \<open>
  The vertices of a graph are its keys.
\<close>

definition vertices :: "graph \<Rightarrow> string set" where
  "vertices g = set (map fst g)"

text \<open>
  \<^verbatim>\<open>graph[u][v]\<close>, where both keys exist: the weights of the edge from \<open>u\<close> to \<open>v\<close>.
\<close>

definition edge_of :: "graph \<Rightarrow> string \<Rightarrow> string \<Rightarrow> edge option" where
  "edge_of g u v = (case map_of g u of None \<Rightarrow> None | Some row \<Rightarrow> map_of row v)"

text \<open>
  A path is a non-empty list of labels, each joined to the next by an edge of the graph.
\<close>

fun is_path :: "graph \<Rightarrow> string list \<Rightarrow> bool" where
  "is_path g [] = False"
| "is_path g [v] = True"
| "is_path g (u # v # rest) = (edge_of g u v \<noteq> None \<and> is_path g (v # rest))"

text \<open>
  The sum of the edge weights of one metric along a list of labels (meant for paths: a
  missing edge counts 0).
\<close>

fun path_weight :: "metric \<Rightarrow> graph \<Rightarrow> string list \<Rightarrow> int" where
  "path_weight m g (u # v # rest) =
     (case edge_of g u v of None \<Rightarrow> 0 | Some e \<Rightarrow> weight m e) + path_weight m g (v # rest)"
| "path_weight m g p = 0"

text \<open>
  The weights of metric \<open>m\<close> are not negative, on every edge of the graph.
\<close>

definition nonneg_weights :: "metric \<Rightarrow> graph \<Rightarrow> bool" where
  "nonneg_weights m g = list_all (\<lambda>(u, row). list_all (\<lambda>(v, e). 0 \<le> weight m e) row) g"

text \<open>
  The weights of both metrics are not negative.
\<close>

definition nonneg_graph :: "graph \<Rightarrow> bool" where
  "nonneg_graph g \<longleftrightarrow> nonneg_weights Distance g \<and> nonneg_weights Cost g"

text \<open>
  Both weights of every edge are strictly positive.
\<close>

definition pos_weights :: "graph \<Rightarrow> bool" where
  "pos_weights g =
     list_all (\<lambda>(u, row). list_all (\<lambda>(v, e). 0 < edge_distance e \<and> 0 < edge_cost e) row) g"

text \<open>
  The exact sum of a weight and an accumulator.
\<close>

fun plus_val :: "int \<Rightarrow> pyval \<Rightarrow> pyval" where
  "plus_val w (Fin a) = Fin (w + a)"
| "plus_val w Inf = Inf"

text \<open>
  The two sums of the relaxation over the edge \<open>e\<close> from a vertex in state \<open>nu\<close> do not wrap
  around: \<open>py_add\<close> gives the exact sums.
\<close>

definition no_wrap :: "edge \<Rightarrow> node \<Rightarrow> bool" where
  "no_wrap e nu \<longleftrightarrow>
     py_add (edge_distance e) (distance nu) = plus_val (edge_distance e) (distance nu) \<and>
     py_add (edge_cost e) (cost nu) = plus_val (edge_cost e) (cost nu)"

text \<open>
  No relaxation that the state \<open>N\<close> allows wraps around.
\<close>

definition no_wraps :: "graph \<Rightarrow> nodes \<Rightarrow> bool" where
  "no_wraps g N \<longleftrightarrow>
     (\<forall>u nu v e. N u = Some nu \<longrightarrow> edge_of g u v = Some e \<longrightarrow> no_wrap e nu)"

text \<open>
  The state of a neighbour \<open>n\<close> after the relaxation from \<open>u\<close> (state \<open>nu\<close>) over the edge \<open>e\<close>,
  where no exception is raised and no sum wraps around.
\<close>

definition relaxed :: "metric \<Rightarrow> string \<Rightarrow> edge \<Rightarrow> node \<Rightarrow> node \<Rightarrow> node" where
  "relaxed m u e nu n =
     (if improves m n (plus_val (edge_distance e) (distance nu)) (plus_val (edge_cost e) (cost nu))
      then n\<lparr>distance := plus_val (edge_distance e) (distance nu),
             cost := plus_val (edge_cost e) (cost nu), best_neighbour := Some u\<rparr>
      else n)"

text \<open>
  \<open>pred_path N v p\<close>: following the \<^verbatim>\<open>best_neighbour\<close> links from \<open>v\<close> ends at a vertex without
  predecessor, and \<open>p\<close> lists the vertices met, from that vertex to \<open>v\<close>.
\<close>

inductive pred_path :: "nodes \<Rightarrow> string \<Rightarrow> string list \<Rightarrow> bool" where
  root: "N v = Some n \<Longrightarrow> best_neighbour n = None \<Longrightarrow> pred_path N v [v]"
| step: "N v = Some n \<Longrightarrow> best_neighbour n = Some u \<Longrightarrow> pred_path N u p \<Longrightarrow>
         pred_path N v (p @ [v])"

text \<open>
  The invariant of one vertex, \<open>U\<close> being the unvisited list: it was never updated, or its
  accumulators are the two weights of its predecessor path from the start \<open>s\<close>, a duplicate-free
  path of the graph whose vertices before \<open>v\<close> are visited.
\<close>

definition tree_ok :: "graph \<Rightarrow> string \<Rightarrow> string list \<Rightarrow> nodes \<Rightarrow> string \<Rightarrow> node \<Rightarrow> bool" where
  "tree_ok g s U N v n \<longleftrightarrow>
     (distance n = Inf \<and> cost n = Inf \<and> best_neighbour n = None \<and> v \<noteq> s) \<or>
     (\<exists>p. pred_path N v p \<and> hd p = s \<and> distinct p \<and> set (butlast p) \<inter> set U = {} \<and>
          is_path g p \<and> distance n = Fin (path_weight Distance g p) \<and>
          cost n = Fin (path_weight Cost g p))"

text \<open>
  The start vertex keeps both accumulators at 0 and has no predecessor.
\<close>

definition start_ok :: "string \<Rightarrow> nodes \<Rightarrow> bool" where
  "start_ok s N \<longleftrightarrow> N s = Some \<lparr>cost = Fin 0, distance = Fin 0, best_neighbour = None\<rparr>"

text \<open>
  No finite primary accumulator is negative.
\<close>

definition nonneg_acc :: "metric \<Rightarrow> nodes \<Rightarrow> bool" where
  "nonneg_acc m N \<longleftrightarrow> (\<forall>v n x. N v = Some n \<longrightarrow> acc m n = Fin x \<longrightarrow> 0 \<le> x)"

text \<open>
  Every vertex satisfies \<open>tree_ok\<close>.
\<close>

definition tree_inv :: "graph \<Rightarrow> string \<Rightarrow> string list \<Rightarrow> nodes \<Rightarrow> bool" where
  "tree_inv g s U N \<longleftrightarrow> (\<forall>v n. N v = Some n \<longrightarrow> tree_ok g s U N v n)"

text \<open>
  Every edge that leaves a visited vertex with a finite primary accumulator has been relaxed.
\<close>

definition relaxed_inv :: "metric \<Rightarrow> graph \<Rightarrow> string list \<Rightarrow> nodes \<Rightarrow> bool" where
  "relaxed_inv m g U N \<longleftrightarrow>
     (\<forall>u v e nu a. u \<notin> set U \<longrightarrow> edge_of g u v = Some e \<longrightarrow> N u = Some nu \<longrightarrow>
        acc m nu = Fin a \<longrightarrow> (\<exists>nv b. N v = Some nv \<and> acc m nv = Fin b \<and> b \<le> weight m e + a))"

text \<open>
  No unvisited vertex has a smaller primary accumulator than a visited one.
\<close>

definition order_inv :: "metric \<Rightarrow> string list \<Rightarrow> nodes \<Rightarrow> bool" where
  "order_inv m U N \<longleftrightarrow>
     (\<forall>u v nu nv. u \<notin> set U \<longrightarrow> v \<in> set U \<longrightarrow> N u = Some nu \<longrightarrow> N v = Some nv \<longrightarrow>
        \<not> py_less (acc m nv) (acc m nu))"

text \<open>
  The invariant of the \<^verbatim>\<open>while\<close> loop, for graphs whose weights are not negative and small
  enough that no sum wraps around.
\<close>

definition invar :: "metric \<Rightarrow> graph \<Rightarrow> string \<Rightarrow> string list \<Rightarrow> nodes \<Rightarrow> bool" where
  "invar m g s U N \<longleftrightarrow>
     dom N = vertices g \<and> distinct U \<and> set U \<subseteq> vertices g \<and> start_ok s N \<and>
     nonneg_acc m N \<and> tree_inv g s U N \<and> relaxed_inv m g U N \<and> order_inv m U N"

text \<open>
  The largest weight that a graph with this many vertices can carry without a wrapped sum
  along a duplicate-free path: \<open>(2^63 - 1) div n\<close>.
\<close>

definition weight_limit :: "graph \<Rightarrow> int" where
  "weight_limit g = (2 ^ 63 - 1) div int (length g)"

text \<open>
  No weight of the graph is above \<open>weight_limit\<close>.
\<close>

definition sums_fit :: "graph \<Rightarrow> bool" where
  "sums_fit g =
     list_all (\<lambda>(u, row). list_all (\<lambda>(v, e).
       edge_distance e \<le> weight_limit g \<and> edge_cost e \<le> weight_limit g) row) g"

text \<open>
  The state at the head of the \<^verbatim>\<open>while\<close> loop after \<open>k\<close> more iterations (the final state,
  when the loop ends earlier).
\<close>

fun loop_iter :: "nat \<Rightarrow> metric \<Rightarrow> graph \<Rightarrow> string list \<times> nodes \<Rightarrow> error + (string list \<times> nodes)" where
  "loop_iter 0 m graph st = Inr st"
| "loop_iter (Suc k) m graph st =
     (if fst st = [] then Inr st
      else (case loop_body m graph st of
              Inl err \<Rightarrow> Inl err
            | Inr st' \<Rightarrow> loop_iter k m graph st'))"

text \<open>
  The distance accumulator of a node is infinite exactly when its cost accumulator is.
\<close>

definition both_fin :: "nodes \<Rightarrow> bool" where
  "both_fin N \<longleftrightarrow> (\<forall>v n. N v = Some n \<longrightarrow> (distance n = Inf \<longleftrightarrow> cost n = Inf))"

text \<open>
  A vertex other than the start that has no predecessor has both accumulators infinite.
\<close>

definition untouched :: "string \<Rightarrow> nodes \<Rightarrow> bool" where
  "untouched s N \<longleftrightarrow>
     (\<forall>v n. N v = Some n \<longrightarrow> best_neighbour n = None \<longrightarrow> v \<noteq> s \<longrightarrow>
        distance n = Inf \<and> cost n = Inf)"

text \<open>
  \<open>v\<close> is reachable from \<open>s\<close>: some path of the graph leads from \<open>s\<close> to \<open>v\<close>.
\<close>

definition reachable :: "graph \<Rightarrow> string \<Rightarrow> string \<Rightarrow> bool" where
  "reachable g s v \<longleftrightarrow> (\<exists>p. is_path g p \<and> hd p = s \<and> last p = v)"

text \<open>
  The simple paths from \<open>s\<close> to \<open>v\<close>: the paths that visit no vertex twice.
\<close>

definition simple_paths :: "graph \<Rightarrow> string \<Rightarrow> string \<Rightarrow> string list set" where
  "simple_paths g s v = {p. is_path g p \<and> hd p = s \<and> last p = v \<and> distinct p}"

text \<open>
  The secondary metric of a run.
\<close>

fun other :: "metric \<Rightarrow> metric" where
  "other Distance = Cost"
| "other Cost = Distance"

text \<open>
  The labels of a path, from its first vertex to its last, joined by \<^verbatim>\<open>"-"\<close>: the form in
  which the docstring of \<^verbatim>\<open>get_best_path\<close> shows a path (\<^verbatim>\<open>"A-G-C-J"\<close>).
\<close>

fun joined :: "string list \<Rightarrow> string" where
  "joined [] = []"
| "joined [v] = v"
| "joined (v # w # rest) = v @ ''-'' @ joined (w # rest)"

text \<open>
  Every neighbour named in a row is itself a key of the graph.
\<close>

definition closed_graph :: "graph \<Rightarrow> bool" where
  "closed_graph g = list_all (\<lambda>(u, row). list_all (\<lambda>(v, e). v \<in> set (map fst g)) row) g"

section \<open>Example graphs\<close>

text \<open>
  The graph of the docstring of \<^verbatim>\<open>create_graph\<close> (\<open>A\<close>--\<open>B\<close> and \<open>A\<close>--\<open>C\<close>), with one more
  vertex \<open>D\<close> that has no edge.
\<close>

definition example_graph :: graph where
  "example_graph =
     [(''A'', [(''B'', \<lparr>edge_distance = 10, edge_cost = 200\<rparr>),
               (''C'', \<lparr>edge_distance = 15, edge_cost = 350\<rparr>)]),
      (''B'', [(''A'', \<lparr>edge_distance = 10, edge_cost = 200\<rparr>)]),
      (''C'', [(''A'', \<lparr>edge_distance = 15, edge_cost = 350\<rparr>)]),
      (''D'', [])]"

text \<open>
  A triangle where the shortest and the cheapest way from \<open>A\<close> to \<open>C\<close> differ: through \<open>B\<close>
  the distance is 2 and the cost 20, directly the distance is 5 and the cost 1.
\<close>

definition detour_graph :: graph where
  "detour_graph =
     [(''A'', [(''B'', \<lparr>edge_distance = 1, edge_cost = 10\<rparr>),
               (''C'', \<lparr>edge_distance = 5, edge_cost = 1\<rparr>)]),
      (''B'', [(''A'', \<lparr>edge_distance = 1, edge_cost = 10\<rparr>),
               (''C'', \<lparr>edge_distance = 1, edge_cost = 10\<rparr>)]),
      (''C'', [(''A'', \<lparr>edge_distance = 5, edge_cost = 1\<rparr>),
               (''B'', \<lparr>edge_distance = 1, edge_cost = 10\<rparr>)])]"

text \<open>
  Two edges of distance \<open>2^62\<close> (the cells \<^verbatim>\<open>"4611686018427387904 1"\<close> of the table): the way
  from \<open>A\<close> to \<open>C\<close> has the distance \<open>2^63\<close>, one more than the largest \<^verbatim>\<open>numpy.int64\<close>.
\<close>

definition wrap_graph :: graph where
  "wrap_graph =
     [(''A'', [(''B'', \<lparr>edge_distance = 4611686018427387904, edge_cost = 4611686018427387904\<rparr>)]),
      (''B'', [(''C'', \<lparr>edge_distance = 4611686018427387904, edge_cost = 4611686018427387904\<rparr>)]),
      (''C'', [])]"

text \<open>
  Two edges of distance 1 and cost \<open>2^62\<close> (the cells \<^verbatim>\<open>"1 4611686018427387904"\<close>).
\<close>

definition cost_wrap_graph :: graph where
  "cost_wrap_graph =
     [(''A'', [(''B'', \<lparr>edge_distance = 1, edge_cost = 4611686018427387904\<rparr>)]),
      (''B'', [(''C'', \<lparr>edge_distance = 1, edge_cost = 4611686018427387904\<rparr>)]),
      (''C'', [])]"

text \<open>
  A directed triangle \<open>A\<close>, \<open>B\<close>, \<open>C\<close> whose middle edge has the distance \<open>2^63 - 1\<close> (the
  cells \<^verbatim>\<open>"1 1"\<close>, \<^verbatim>\<open>"9223372036854775807 1"\<close>, \<^verbatim>\<open>"1 1"\<close>).
\<close>

definition cycle_graph :: graph where
  "cycle_graph =
     [(''A'', [(''B'', \<lparr>edge_distance = 1, edge_cost = 1\<rparr>)]),
      (''B'', [(''C'', \<lparr>edge_distance = 9223372036854775807, edge_cost = 9223372036854775807\<rparr>)]),
      (''C'', [(''A'', \<lparr>edge_distance = 1, edge_cost = 1\<rparr>)])]"

section \<open>The loop invariant\<close>

subsection \<open>Weights and the order of accumulators\<close>

lemma edge_of_nonneg: "nonneg_weights m g \<Longrightarrow> edge_of g u v = Some e \<Longrightarrow> 0 \<le> weight m e"
  by (auto simp: nonneg_weights_def edge_of_def list_all_iff split: option.splits dest!: map_of_SomeD)

lemma pos_nonneg: "pos_weights g \<Longrightarrow> nonneg_graph g"
  unfolding nonneg_graph_def
  by (fastforce simp: pos_weights_def nonneg_weights_def list_all_iff)

lemma nonneg_graphD: "nonneg_graph g \<Longrightarrow> nonneg_weights m g"
  by (cases m) (simp_all add: nonneg_graph_def)

lemma py_less_irrefl [simp]: "\<not> py_less a a"
  by (cases a) auto

lemma py_less_trans: "py_less a b \<Longrightarrow> py_less b c \<Longrightarrow> py_less a c"
  by (cases a; cases b; cases c) auto

lemma py_le_trans: "\<not> py_less b a \<Longrightarrow> \<not> py_less c b \<Longrightarrow> \<not> py_less c a"
  by (cases a; cases b; cases c) auto

lemma py_less_le_trans: "py_less a b \<Longrightarrow> \<not> py_less c b \<Longrightarrow> py_less a c"
  by (cases a; cases b; cases c) auto

subsection \<open>The selection of the nearest node\<close>

lemma find_nearest_min:
  assumes "find_nearest m N us v0 x = Inr u" and "N v0 = Some n0" and "x = acc m n0"
  shows "\<exists>nu. N u = Some nu \<and> \<not> py_less x (acc m nu) \<and>
           (\<forall>v \<in> set us. \<forall>n. N v = Some n \<longrightarrow> \<not> py_less (acc m n) (acc m nu))"
  using assms
proof (induction us arbitrary: v0 x n0)
  case Nil
  then show ?case by auto
next
  case (Cons w us)
  from Cons.prems(1) obtain nw where nw: "N w = Some nw"
    by (auto split: option.splits)
  show ?case
  proof (cases "py_less (acc m nw) x")
    case True
    with Cons.prems nw have "find_nearest m N us w (acc m nw) = Inr u" by simp
    from Cons.IH[OF this nw refl] obtain nu where nu: "N u = Some nu"
      "\<not> py_less (acc m nw) (acc m nu)"
      "\<forall>v \<in> set us. \<forall>n. N v = Some n \<longrightarrow> \<not> py_less (acc m n) (acc m nu)" by blast
    have "\<not> py_less x (acc m nu)"
      using True nu(2) by (metis py_less_trans py_less_irrefl py_less_le_trans)
    with nu nw show ?thesis by auto
  next
    case False
    with Cons.prems nw have "find_nearest m N us v0 x = Inr u" by simp
    from Cons.IH[OF this Cons.prems(2,3)] obtain nu where nu: "N u = Some nu"
      "\<not> py_less x (acc m nu)"
      "\<forall>v \<in> set us. \<forall>n. N v = Some n \<longrightarrow> \<not> py_less (acc m n) (acc m nu)" by blast
    have "\<not> py_less (acc m nw) (acc m nu)"
      using False nu(2) py_le_trans by blast
    with nu nw show ?thesis by auto
  qed
qed

lemma select_nearest_min:
  assumes "select_nearest m N us = Inr u"
  shows "u \<in> set us \<and> (\<exists>nu. N u = Some nu \<and>
           (\<forall>v \<in> set us. \<forall>n. N v = Some n \<longrightarrow> \<not> py_less (acc m n) (acc m nu)))"
proof -
  from assms obtain v0 rest n0 where us: "us = v0 # rest" and n0: "N v0 = Some n0"
    and f: "find_nearest m N us v0 (acc m n0) = Inr u"
    by (auto simp: select_nearest_def split: list.splits option.splits)
  from find_nearest_min[OF f n0 refl] select_nearest_mem[OF assms] show ?thesis by blast
qed

lemma find_nearest_ok:
  "set us \<subseteq> dom N \<Longrightarrow> \<exists>u. find_nearest m N us v x = Inr u"
  by (induction us arbitrary: v x) (auto split: option.splits)

lemma select_nearest_ok:
  "us \<noteq> [] \<Longrightarrow> set us \<subseteq> dom N \<Longrightarrow> \<exists>u. select_nearest m N us = Inr u"
  by (cases us) (auto simp: select_nearest_def find_nearest_ok split: option.splits)

subsection \<open>One relaxation and the loop over the neighbours\<close>

lemma py_int_Inr: "py_int a = Inr d \<Longrightarrow> a = Fin d"
  by (cases a) auto

lemma alternate_Inr:
  "alternate m g u N v = Inr r \<Longrightarrow>
     \<exists>e nu. edge_of g u v = Some e \<and> N u = Some nu \<and> r = py_add (weight m e) (acc m nu)"
  by (auto simp: alternate_def edge_of_def split: option.splits)

lemma relax_Inr:
  assumes "relax m g u N v = Inr N'"
  shows "\<exists>e nu n n'. edge_of g u v = Some e \<and> N u = Some nu \<and> N v = Some n \<and>
           N' = N(v \<mapsto> n') \<and>
           (n' = n \<or>
            (\<exists>d c. distance n' = Fin d \<and> cost n' = Fin c \<and> best_neighbour n' = Some u)) \<and>
           (no_wrap e nu \<longrightarrow> n' = relaxed m u e nu n)"
proof -
  from assms obtain ad ac n where ad: "alternate Distance g u N v = Inr ad"
    and ac: "alternate Cost g u N v = Inr ac" and n: "N v = Some n"
    by (auto simp: relax_def split: sum.splits option.splits)
  from alternate_Inr[OF ad] alternate_Inr[OF ac] obtain e nu where
    e: "edge_of g u v = Some e" and nu: "N u = Some nu"
    and ad': "ad = py_add (edge_distance e) (distance nu)"
    and ac': "ac = py_add (edge_cost e) (cost nu)"
    by auto
  show ?thesis
  proof (cases "improves m n ad ac")
    case True
    with assms ad ac n obtain d c where dc: "ad = Fin d" "ac = Fin c"
      and N': "N' = N(v \<mapsto> n\<lparr>distance := Fin d, cost := Fin c, best_neighbour := Some u\<rparr>)"
      by (auto simp: relax_def split: sum.splits dest!: py_int_Inr)
    let ?n' = "n\<lparr>distance := Fin d, cost := Fin c, best_neighbour := Some u\<rparr>"
    have "no_wrap e nu \<longrightarrow> ?n' = relaxed m u e nu n"
      using True dc ad' ac' by (auto simp: relaxed_def no_wrap_def)
    moreover have "distance ?n' = Fin d" "cost ?n' = Fin c" "best_neighbour ?n' = Some u"
      by simp_all
    ultimately show ?thesis
      using e nu n N' by blast
  next
    case False
    with assms ad ac n have "N' = N" by (simp add: relax_def)
    moreover have "no_wrap e nu \<longrightarrow> n = relaxed m u e nu n"
      using False ad' ac' by (auto simp: relaxed_def no_wrap_def)
    moreover have "N = N(v \<mapsto> n)" using n by (simp add: fun_upd_idem)
    ultimately show ?thesis
      using e nu n by blast
  qed
qed

lemma relaxed_idem: "relaxed m u e nu (relaxed m u e nu n) = relaxed m u e nu n"
  by (cases m) (auto simp: relaxed_def improves_def)

lemma no_improve:
  assumes "0 \<le> weight m e" and "\<not> py_less (acc m nu) (acc m n)"
  shows "relaxed m u e nu n = n"
proof -
  have "\<not> py_less (plus_val (weight m e) (acc m nu)) (acc m n)"
    using assms by (cases "acc m nu"; cases "acc m n") auto
  then show ?thesis
    by (cases m) (auto simp: relaxed_def improves_def)
qed

lemma relax_all_char:
  assumes "relax_all m g u nbs N = Inr N'" and "N u = Some nu"
    and "\<And>e. edge_of g u u = Some e \<Longrightarrow> relaxed m u e nu nu = nu"
    and "\<forall>v e. edge_of g u v = Some e \<longrightarrow> no_wrap e nu"
  shows "(\<forall>v. N' v = (if v \<in> set nbs
            then (case edge_of g u v of None \<Rightarrow> N v
                  | Some e \<Rightarrow> map_option (relaxed m u e nu) (N v))
            else N v)) \<and>
         (\<forall>v \<in> set nbs. edge_of g u v \<noteq> None \<and> N v \<noteq> None)"
  using assms(1,2)
proof (induction nbs arbitrary: N)
  case Nil
  then show ?case by simp
next
  case (Cons w nbs)
  from Cons.prems(1) obtain N1 where r: "relax m g u N w = Inr N1"
    and rest: "relax_all m g u nbs N1 = Inr N'"
    by (auto split: sum.splits)
  from relax_Inr[OF r] Cons.prems(2) obtain e n n' where e: "edge_of g u w = Some e"
    and n: "N w = Some n" and N1': "N1 = N(w \<mapsto> n')"
    and n': "no_wrap e nu \<longrightarrow> n' = relaxed m u e nu n"
    by auto
  from n' assms(4) e N1' have N1: "N1 = N(w \<mapsto> relaxed m u e nu n)"
    by simp
  have u1: "N1 u = Some nu"
    using N1 Cons.prems(2) n e assms(3) by auto
  from Cons.IH[OF rest u1] have
    IH1: "\<And>v. N' v = (if v \<in> set nbs
            then (case edge_of g u v of None \<Rightarrow> N1 v
                  | Some e \<Rightarrow> map_option (relaxed m u e nu) (N1 v))
            else N1 v)"
    and IH2: "\<forall>v \<in> set nbs. edge_of g u v \<noteq> None \<and> N1 v \<noteq> None"
    by auto
  have "N' v = (if v \<in> set (w # nbs)
            then (case edge_of g u v of None \<Rightarrow> N v
                  | Some e \<Rightarrow> map_option (relaxed m u e nu) (N v))
            else N v)" for v
    using IH1[of v] N1 e n by (cases "v = w") (auto simp: relaxed_idem split: option.splits)
  moreover have "\<forall>v \<in> set (w # nbs). edge_of g u v \<noteq> None \<and> N v \<noteq> None"
    using IH2 N1 e n by (auto split: if_splits)
  ultimately show ?case by blast
qed

subsection \<open>Predecessor paths and the walk of get_best_path\<close>

lemma pred_path_last: "pred_path N v p \<Longrightarrow> p \<noteq> [] \<and> last p = v"
  by (induction rule: pred_path.induct) auto

lemma pred_path_cong:
  "pred_path N v p \<Longrightarrow> (\<And>u. u \<in> set p \<Longrightarrow> N' u = N u) \<Longrightarrow> pred_path N' v p"
proof (induction rule: pred_path.induct)
  case (root N v n)
  then show ?case by (auto intro: pred_path.root)
next
  case (step N v n u p)
  then show ?case by (auto intro: pred_path.step)
qed

lemma follow_pred_path:
  "pred_path N v p \<Longrightarrow> follow N v pre = Some (Inr (pre @ tl (rev p)))"
proof (induction arbitrary: pre rule: pred_path.induct)
  case (root N v n)
  then show ?case by (subst follow.simps) simp
next
  case (step N v n u p)
  from pred_path_last[OF step.hyps(3)] obtain q where q: "rev p = u # q"
    by (metis hd_Cons_tl hd_rev rev_is_Nil_conv)
  from step.IH[of "pre @ [u]"] q have "follow N u (pre @ [u]) = Some (Inr (pre @ u # q))"
    by simp
  with step.hyps(1,2) q show ?case
    by (subst follow.simps) simp
qed

lemma follow_pred_path_start:
  assumes "pred_path N v p"
  shows "follow N v [v] = Some (Inr (rev p))"
proof -
  from pred_path_last[OF assms] obtain q where "rev p = v # q"
    by (metis hd_Cons_tl hd_rev rev_is_Nil_conv)
  with follow_pred_path[OF assms, of "[v]"] show ?thesis by simp
qed

lemma is_path_snoc:
  "is_path g p \<Longrightarrow> edge_of g (last p) v \<noteq> None \<Longrightarrow> is_path g (p @ [v])"
  by (induction g p rule: is_path.induct) auto

lemma path_weight_snoc:
  "p \<noteq> [] \<Longrightarrow> edge_of g (last p) v = Some e \<Longrightarrow>
     path_weight m g (p @ [v]) = path_weight m g p + weight m e"
  by (induction m g p rule: path_weight.induct) auto

subsection \<open>One iteration of the main loop\<close>

lemma loop_body_step:
  assumes lb: "loop_body m g (U, N) = Inr (U', N')" and nn: "nonneg_weights m g"
    and nw: "no_wraps g N"
  shows "\<exists>cur nc. cur \<in> set U \<and> U' = remove1 cur U \<and> N cur = Some nc \<and>
           (\<forall>v\<in>set U. \<forall>n. N v = Some n \<longrightarrow> \<not> py_less (acc m n) (acc m nc)) \<and>
           (\<forall>v. N' v = (case edge_of g cur v of None \<Rightarrow> N v
                         | Some e \<Rightarrow> map_option (relaxed m cur e nc) (N v))) \<and>
           (\<forall>v e. edge_of g cur v = Some e \<longrightarrow> N v \<noteq> None)"
proof -
  from lb obtain cur row where sel: "select_nearest m N U = Inr cur"
    and row: "map_of g cur = Some row"
    and ra: "relax_all m g cur (map fst row) N = Inr N'" and U': "U' = remove1 cur U"
    by (auto simp: loop_body_def recalculate_neighbour_position_def split: sum.splits option.splits)
  from select_nearest_min[OF sel] obtain nc where cur: "cur \<in> set U" and nc: "N cur = Some nc"
    and mn: "\<forall>v\<in>set U. \<forall>n. N v = Some n \<longrightarrow> \<not> py_less (acc m n) (acc m nc)"
    by blast
  have self: "relaxed m cur e nc nc = nc" if "edge_of g cur cur = Some e" for e
    using edge_of_nonneg[OF nn that] by (intro no_improve) auto
  have mem: "v \<in> set (map fst row) \<longleftrightarrow> edge_of g cur v \<noteq> None" for v
    using row by (simp add: edge_of_def map_of_eq_None_iff)
  have exact: "\<forall>v e. edge_of g cur v = Some e \<longrightarrow> no_wrap e nc"
    using nw nc unfolding no_wraps_def by blast
  from relax_all_char[OF ra nc self exact] have
    c1: "\<And>v. N' v = (if v \<in> set (map fst row)
            then (case edge_of g cur v of None \<Rightarrow> N v
                  | Some e \<Rightarrow> map_option (relaxed m cur e nc) (N v))
            else N v)"
    and c2: "\<And>v. v \<in> set (map fst row) \<Longrightarrow> N v \<noteq> None"
    by blast+
  have "N' v = (case edge_of g cur v of None \<Rightarrow> N v
                         | Some e \<Rightarrow> map_option (relaxed m cur e nc) (N v))" for v
    using c1[of v] mem[of v] by (simp split: option.splits)
  moreover have "N v \<noteq> None" if "edge_of g cur v = Some e" for v e
    using c2[of v] mem[of v] that by simp
  ultimately show ?thesis using cur nc mn U' by blast
qed

lemma nonneg_accD: "nonneg_acc m N \<Longrightarrow> N v = Some n \<Longrightarrow> acc m n = Fin x \<Longrightarrow> 0 \<le> x"
  unfolding nonneg_acc_def by blast

lemma tree_invD: "tree_inv g s U N \<Longrightarrow> N v = Some n \<Longrightarrow> tree_ok g s U N v n"
  unfolding tree_inv_def by blast

lemma relaxed_invD:
  "relaxed_inv m g U N \<Longrightarrow> u \<notin> set U \<Longrightarrow> edge_of g u v = Some e \<Longrightarrow> N u = Some nu \<Longrightarrow>
     acc m nu = Fin a \<Longrightarrow> \<exists>nv b. N v = Some nv \<and> acc m nv = Fin b \<and> b \<le> weight m e + a"
  unfolding relaxed_inv_def by blast

lemma order_invD:
  "order_inv m U N \<Longrightarrow> u \<notin> set U \<Longrightarrow> v \<in> set U \<Longrightarrow> N u = Some nu \<Longrightarrow> N v = Some nv \<Longrightarrow>
     \<not> py_less (acc m nv) (acc m nu)"
  unfolding order_inv_def by blast

lemma relaxed_cases:
  "relaxed m u e nu n = n \<or>
   (py_less (plus_val (weight m e) (acc m nu)) (acc m n) \<and>
    relaxed m u e nu n = n\<lparr>distance := plus_val (edge_distance e) (distance nu),
             cost := plus_val (edge_cost e) (cost nu), best_neighbour := Some u\<rparr>)"
  by (cases m) (auto simp: relaxed_def improves_def)

lemma relaxed_acc:
  "relaxed m u e nu n \<noteq> n \<Longrightarrow> acc m (relaxed m u e nu n) = plus_val (weight m e) (acc m nu)"
  by (cases m) (auto simp: relaxed_def improves_def)

lemma relaxed_not_improved:
  assumes "relaxed m u e nu n = n" and "acc m nu = Fin a"
  shows "\<exists>b. acc m n = Fin b \<and> b \<le> weight m e + a"
proof -
  have "\<not> py_less (plus_val (weight m e) (acc m nu)) (acc m n)"
  proof
    assume pl: "py_less (plus_val (weight m e) (acc m nu)) (acc m n)"
    then have "acc m (relaxed m u e nu n) = plus_val (weight m e) (acc m nu)"
      by (cases m) (auto simp: relaxed_def improves_def)
    with assms(1) pl show False by simp
  qed
  then show ?thesis
    using assms(2) by (cases "acc m n") auto
qed

lemma py_less_plus_Fin:
  "py_less (plus_val w x) y \<Longrightarrow> \<exists>a. x = Fin a \<and> py_less (Fin (w + a)) y"
  by (cases x) auto

subsection \<open>Sums that do not wrap around\<close>

lemma int64_add_exact:
  assumes "- (2 ^ 63) \<le> a + b" and "a + b < 2 ^ 63"
  shows "int64_add a b = a + b"
proof -
  have "word_of_int a + word_of_int b = (word_of_int (a + b) :: 64 word)" by simp
  then have "int64_add a b = sint (word_of_int (a + b) :: 64 word)"
    by (simp only: int64_add_def)
  also have "\<dots> = signed_take_bit 63 (a + b)"
    by (simp only: signed_of_int) simp
  also have "\<dots> = a + b"
    using assms by (intro signed_take_bit_int_eq_self) simp_all
  finally show ?thesis .
qed

lemma edge_of_fit:
  "sums_fit g \<Longrightarrow> edge_of g u v = Some e \<Longrightarrow> weight m e \<le> weight_limit g"
  by (cases m)
    (auto simp: sums_fit_def edge_of_def list_all_iff split: option.splits dest!: map_of_SomeD)

lemma weight_limit_nonneg: "0 \<le> weight_limit g"
proof (cases "g = []")
  case True
  then show ?thesis by (simp add: weight_limit_def)
next
  case False
  then have "0 < int (length g)" by simp
  then show ?thesis
    unfolding weight_limit_def by (subst pos_imp_zdiv_nonneg_iff) simp_all
qed

lemma weight_limit_times: "g \<noteq> [] \<Longrightarrow> int (length g) * weight_limit g < 2 ^ 63"
proof -
  assume "g \<noteq> []"
  then have pos: "0 < int (length g)" by simp
  have "int (length g) * ((2 ^ 63 - 1) div int (length g)) =
      (2 ^ 63 - 1) - (2 ^ 63 - 1) mod int (length g)"
    by (simp only: minus_mod_eq_mult_div)
  also have "\<dots> \<le> 2 ^ 63 - 1"
    using pos_mod_sign[OF pos, of "2 ^ 63 - 1"] by linarith
  finally show ?thesis by (simp add: weight_limit_def)
qed

lemma path_weight_bounds:
  assumes nn: "nonneg_weights m g" and fit: "sums_fit g"
  shows "0 \<le> path_weight m g p \<and> path_weight m g p \<le> int (length p - 1) * weight_limit g"
proof (induction p rule: induct_list012)
  case 1
  then show ?case by simp
next
  case (2 u)
  then show ?case by simp
next
  case (3 u v rest)
  let ?w = "case edge_of g u v of None \<Rightarrow> 0 | Some e \<Rightarrow> weight m e"
  have w: "0 \<le> ?w \<and> ?w \<le> weight_limit g"
    using edge_of_nonneg[OF nn, of u v] edge_of_fit[OF fit, of u v _ m] weight_limit_nonneg[of g]
    by (auto split: option.splits)
  have "int (length (u # v # rest) - 1) * weight_limit g =
      weight_limit g + int (length (v # rest) - 1) * weight_limit g"
    by (simp add: algebra_simps)
  with w "3.IH"(2) show ?case by simp
qed

lemma pred_path_dom: "pred_path N v p \<Longrightarrow> set p \<subseteq> dom N"
  by (induction rule: pred_path.induct) auto

lemma distinct_length_le:
  assumes "distinct p" and "set p \<subseteq> set (map fst g)"
  shows "length p \<le> length g"
proof -
  have "length p = card (set p)" using assms(1) by (simp add: distinct_card)
  also have "\<dots> \<le> card (set (map fst g))" using assms(2) by (intro card_mono) simp_all
  also have "\<dots> \<le> length (map fst g)" by (rule card_length)
  finally show ?thesis by simp
qed

lemma path_sum_fits:
  assumes nn: "nonneg_weights m g" and fit: "sums_fit g"
    and p: "distinct p" "set p \<subseteq> set (map fst g)" "p \<noteq> []"
    and e: "edge_of g u v = Some e"
  shows "int64_add (weight m e) (path_weight m g p) = weight m e + path_weight m g p"
proof -
  from p(2,3) have g: "g \<noteq> []" by auto
  from path_weight_bounds[OF nn fit, of p] have pw: "0 \<le> path_weight m g p"
    "path_weight m g p \<le> int (length p - 1) * weight_limit g" by simp_all
  have w: "0 \<le> weight m e" "weight m e \<le> weight_limit g"
    using edge_of_nonneg[OF nn e] edge_of_fit[OF fit e] by simp_all
  have "weight m e + path_weight m g p \<le> weight_limit g + int (length p - 1) * weight_limit g"
    using w pw by simp
  also have "\<dots> = int (length p) * weight_limit g"
    using p(3) by (cases p) (simp_all add: algebra_simps)
  also have "\<dots> \<le> int (length g) * weight_limit g"
    using distinct_length_le[OF p(1,2)] weight_limit_nonneg[of g]
    by (intro mult_right_mono) simp_all
  also have "\<dots> < 2 ^ 63" by (rule weight_limit_times[OF g])
  finally have "weight m e + path_weight m g p < 2 ^ 63" .
  moreover have "- (2 ^ 63) \<le> weight m e + path_weight m g p"
    using w pw by simp
  ultimately show ?thesis by (intro int64_add_exact)
qed

lemma invar_no_wraps:
  assumes inv: "invar m g s U N" and nn: "nonneg_graph g" and fit: "sums_fit g"
  shows "no_wraps g N"
  unfolding no_wraps_def
proof (intro allI impI)
  fix u nu v e
  assume nu: "N u = Some nu" and e: "edge_of g u v = Some e"
  from inv have dom: "dom N = vertices g" and tr: "tree_inv g s U N"
    by (simp_all add: invar_def)
  from tree_invD[OF tr nu] show "no_wrap e nu"
    unfolding tree_ok_def
  proof (elim disjE exE conjE)
    assume "distance nu = Inf" "cost nu = Inf"
    then show ?thesis by (simp add: no_wrap_def)
  next
    fix p assume p: "pred_path N u p" "distinct p"
      "distance nu = Fin (path_weight Distance g p)" "cost nu = Fin (path_weight Cost g p)"
    from pred_path_dom[OF p(1)] dom have sub: "set p \<subseteq> set (map fst g)"
      by (simp add: vertices_def)
    from pred_path_last[OF p(1)] have ne: "p \<noteq> []" by simp
    from path_sum_fits[OF nonneg_graphD[OF nn] fit p(2) sub ne e, of Distance]
      path_sum_fits[OF nonneg_graphD[OF nn] fit p(2) sub ne e, of Cost] p(3,4)
    show ?thesis by (simp add: no_wrap_def)
  qed
qed

subsection \<open>The invariant is kept by an iteration\<close>

lemma pred_path_set_butlast:
  "pred_path N v p \<Longrightarrow> set p = insert v (set (butlast p))"
  by (induction rule: pred_path.induct) auto

lemma invar_step_all:
  assumes inv: "invar m g s U N" and nng: "nonneg_graph g" and fit: "sums_fit g"
    and lb: "loop_body m g (U, N) = Inr (U', N')"
  shows "invar m g s U' N' \<and> (\<forall>v. v \<notin> set U' \<longrightarrow> N' v = N v) \<and> set U' \<subseteq> set U"
proof -
  note nn = nonneg_graphD[OF nng, of m]
  from loop_body_step[OF lb nn invar_no_wraps[OF inv nng fit]] obtain cur nc where cur: "cur \<in> set U"
    and U': "U' = remove1 cur U" and nc: "N cur = Some nc"
    and mn: "\<And>v n. v \<in> set U \<Longrightarrow> N v = Some n \<Longrightarrow> \<not> py_less (acc m n) (acc m nc)"
    and N': "\<And>v. N' v = (case edge_of g cur v of None \<Rightarrow> N v
                         | Some e \<Rightarrow> map_option (relaxed m cur e nc) (N v))"
    and nb: "\<And>v e. edge_of g cur v = Some e \<Longrightarrow> N v \<noteq> None"
    by blast
  from inv have I1: "dom N = vertices g" "distinct U" "set U \<subseteq> vertices g"
    and start: "start_ok s N" and nna: "nonneg_acc m N" and tr: "tree_inv g s U N"
    and rl: "relaxed_inv m g U N" and ord: "order_inv m U N"
    by (simp_all add: invar_def)
  note dU = I1(2)
  note Ns = start[unfolded start_ok_def]
  note I3 = nonneg_accD[OF nna]
  note I4 = tree_invD[OF tr]
  note I5 = relaxed_invD[OF rl]
  note I6 = order_invD[OF ord]
  have sU': "set U' = set U - {cur}" and dU': "distinct U'"
    using dU U' by auto
  have keep: "N' v = N v" if "\<And>n. N v = Some n \<Longrightarrow> \<not> py_less (acc m nc) (acc m n)" for v
  proof (cases "edge_of g cur v")
    case None
    then show ?thesis by (simp add: N')
  next
    case (Some e)
    with nb obtain n where n: "N v = Some n" by blast
    have "relaxed m cur e nc n = n"
      using edge_of_nonneg[OF nn Some] that[OF n] by (rule no_improve)
    with Some n show ?thesis by (simp add: N')
  qed
  have vis: "N' v = N v" if "v \<notin> set U" for v
    using I6[OF that cur _ nc] by (intro keep) auto
  have cur': "N' cur = Some nc"
    using keep[of cur] nc by auto
  have s': "N' s = N s"
  proof (rule keep)
    fix n assume "N s = Some n"
    with Ns have "acc m n = Fin 0" by (cases m) auto
    moreover have "\<not> py_less (acc m nc) (Fin 0)"
      using I3[OF nc] by (cases "acc m nc") auto
    ultimately show "\<not> py_less (acc m nc) (acc m n)" by simp
  qed
  have dom: "dom N' = dom N"
    by (auto simp: N' dom_def split: option.splits)
  have upd: "N' v = Some n \<or>
              (\<exists>e a. v \<in> set U' \<and> edge_of g cur v = Some e \<and> acc m nc = Fin a \<and>
                 0 \<le> weight m e \<and> py_less (Fin (weight m e + a)) (acc m n) \<and>
                 N' v = Some (n\<lparr>distance := plus_val (edge_distance e) (distance nc),
                   cost := plus_val (edge_cost e) (cost nc), best_neighbour := Some cur\<rparr>))"
    if n: "N v = Some n" for v n
  proof (cases "N' v = Some n")
    case True
    then show ?thesis by simp
  next
    case False
    with n N'[of v] obtain e where e: "edge_of g cur v = Some e"
      and N'v: "N' v = Some (relaxed m cur e nc n)" and ne: "relaxed m cur e nc n \<noteq> n"
      by (auto split: option.splits)
    from relaxed_cases[of m cur e nc n] ne have
      pl: "py_less (plus_val (weight m e) (acc m nc)) (acc m n)"
      and r: "relaxed m cur e nc n = n\<lparr>distance := plus_val (edge_distance e) (distance nc),
             cost := plus_val (edge_cost e) (cost nc), best_neighbour := Some cur\<rparr>"
      by auto
    from py_less_plus_Fin[OF pl] obtain a where a: "acc m nc = Fin a"
      "py_less (Fin (weight m e + a)) (acc m n)" by blast
    have "v \<in> set U'"
    proof (rule ccontr)
      assume "v \<notin> set U'"
      then have "v \<notin> set U \<or> v = cur" using sU' by auto
      then have "N' v = N v" using vis cur' nc by auto
      with False n show False by simp
    qed
    with e a edge_of_nonneg[OF nn e] N'v r show ?thesis by auto
  qed
  have rel: "\<exists>n' b. N' v = Some n' \<and> acc m n' = Fin b \<and> b \<le> weight m e + a"
    if e: "edge_of g cur v = Some e" and a: "acc m nc = Fin a" for v e a
  proof -
    from nb[OF e] obtain n where n: "N v = Some n" by blast
    with e have N'v: "N' v = Some (relaxed m cur e nc n)" by (simp add: N')
    show ?thesis
    proof (cases "relaxed m cur e nc n = n")
      case True
      from relaxed_not_improved[OF True a] N'v True show ?thesis by auto
    next
      case False
      from relaxed_acc[OF False] a N'v show ?thesis by auto
    qed
  qed
  have pre: "\<exists>n. N v = Some n" if "N' v = Some n'" for v n'
    using dom that by (metis domI domD)
  have keep': "N' v = N v" if "v \<notin> set U'" for v
    using that sU' vis[of v] cur' nc by (cases "v = cur") auto
  have decr: "\<not> py_less (acc m n) (acc m n')" if "N v = Some n" "N' v = Some n'" for v n n'
  proof -
    from upd[OF that(1)] that(2) consider "n' = n"
      | e a where "py_less (Fin (weight m e + a)) (acc m n)"
          "n' = n\<lparr>distance := plus_val (edge_distance e) (distance nc),
                   cost := plus_val (edge_cost e) (cost nc), best_neighbour := Some cur\<rparr>"
          "acc m nc = Fin a"
      by auto
    then show ?thesis
    proof cases
      case 1
      then show ?thesis by simp
    next
      case 2
      then have "acc m n' = Fin (weight m e + a)" by (cases m) auto
      with 2(1) show ?thesis by (cases "acc m n") auto
    qed
  qed
  have J3: "0 \<le> x" if "N' v = Some n'" "acc m n' = Fin x" for v n' x
  proof -
    from pre[OF that(1)] obtain n where n: "N v = Some n" by blast
    from upd[OF n] that(1) consider "n' = n"
      | e a where "0 \<le> weight m e"
          "n' = n\<lparr>distance := plus_val (edge_distance e) (distance nc),
                   cost := plus_val (edge_cost e) (cost nc), best_neighbour := Some cur\<rparr>"
          "acc m nc = Fin a"
      by auto
    then show ?thesis
    proof cases
      case 1
      with I3[OF n] that(2) show ?thesis by simp
    next
      case 2
      then have "acc m n' = Fin (weight m e + a)" by (cases m) auto
      with that(2) 2(1) I3[OF nc 2(3)] show ?thesis by simp
    qed
  qed
  have J5: "\<exists>nv b. N' v = Some nv \<and> acc m nv = Fin b \<and> b \<le> weight m e + a"
    if "u \<notin> set U'" "edge_of g u v = Some e" "N' u = Some nu" "acc m nu = Fin a"
    for u v e nu a
  proof (cases "u = cur")
    case True
    with that cur' rel[of v e a] show ?thesis by simp
  next
    case False
    with that(1) sU' have u: "u \<notin> set U" by simp
    with that(3) vis have "N u = Some nu" by simp
    from I5[OF u that(2) this that(4)] obtain nv b where nv: "N v = Some nv"
      "acc m nv = Fin b" "b \<le> weight m e + a" by blast
    from nv(1) dom obtain nv' where nv': "N' v = Some nv'" by (metis domI domD)
    from decr[OF nv(1) nv'] nv(2) obtain b' where "acc m nv' = Fin b'" "b' \<le> b"
      by (cases "acc m nv'") auto
    with nv' nv(3) show ?thesis by auto
  qed
  have J6: "\<not> py_less (acc m nv) (acc m nu)"
    if "u \<notin> set U'" "v \<in> set U'" "N' u = Some nu" "N' v = Some nv" for u v nu nv
  proof -
    from that(2) sU' have vU: "v \<in> set U" "v \<noteq> cur" by auto
    from keep'[OF that(1)] that(3) have u: "N u = Some nu" by simp
    have le_cur: "\<not> py_less (acc m nc) (acc m nu)"
    proof (cases "u = cur")
      case True
      with u nc show ?thesis by simp
    next
      case False
      with that(1) sU' have "u \<notin> set U" by simp
      from I6[OF this cur u nc] show ?thesis .
    qed
    from pre[OF that(4)] obtain n where n: "N v = Some n" by blast
    from upd[OF n] that(4) consider "nv = n"
      | e a where "0 \<le> weight m e"
          "nv = n\<lparr>distance := plus_val (edge_distance e) (distance nc),
                   cost := plus_val (edge_cost e) (cost nc), best_neighbour := Some cur\<rparr>"
          "acc m nc = Fin a"
      by auto
    then show ?thesis
    proof cases
      case 1
      with mn[OF vU(1) n] le_cur show ?thesis using py_le_trans by blast
    next
      case 2
      then have "acc m nv = Fin (weight m e + a)" by (cases m) auto
      with le_cur 2(1,3) show ?thesis by (cases "acc m nu") auto
    qed
  qed
  have J4: "tree_ok g s U' N' v n'" if n': "N' v = Some n'" for v n'
  proof -
    from pre[OF n'] obtain n where n: "N v = Some n" by blast
    have old: "tree_ok g s U' N' w nw" if "N w = Some nw" "N' w = Some nw" for w nw
    proof -
      from I4[OF that(1)] show ?thesis
        unfolding tree_ok_def
      proof (elim disjE exE conjE)
        assume "distance nw = Inf" "cost nw = Inf" "best_neighbour nw = None" "w \<noteq> s"
        then show "(distance nw = Inf \<and> cost nw = Inf \<and> best_neighbour nw = None \<and> w \<noteq> s) \<or>
          (\<exists>p. pred_path N' w p \<and> hd p = s \<and> distinct p \<and> set (butlast p) \<inter> set U' = {} \<and>
          is_path g p \<and> distance nw = Fin (path_weight Distance g p) \<and>
          cost nw = Fin (path_weight Cost g p))" by simp
      next
        fix p assume p: "pred_path N w p" "hd p = s" "distinct p"
          "set (butlast p) \<inter> set U = {}" "is_path g p"
          "distance nw = Fin (path_weight Distance g p)" "cost nw = Fin (path_weight Cost g p)"
        have "N' u = N u" if "u \<in> set p" for u
        proof -
          from that pred_path_set_butlast[OF p(1)] have "u = w \<or> u \<in> set (butlast p)" by auto
          then show ?thesis
            using p(4) vis \<open>N w = Some nw\<close> \<open>N' w = Some nw\<close> by auto
        qed
        with p(1) have "pred_path N' w p" by (rule pred_path_cong)
        moreover have "set (butlast p) \<inter> set U' = {}" using p(4) sU' by auto
        ultimately show "(distance nw = Inf \<and> cost nw = Inf \<and> best_neighbour nw = None \<and> w \<noteq> s) \<or>
          (\<exists>p. pred_path N' w p \<and> hd p = s \<and> distinct p \<and> set (butlast p) \<inter> set U' = {} \<and>
          is_path g p \<and> distance nw = Fin (path_weight Distance g p) \<and>
          cost nw = Fin (path_weight Cost g p))" using p by blast
      qed
    qed
    from upd[OF n] n' consider "n' = n"
      | e a where "v \<in> set U'" "edge_of g cur v = Some e" "acc m nc = Fin a"
          "n' = n\<lparr>distance := plus_val (edge_distance e) (distance nc),
                   cost := plus_val (edge_cost e) (cost nc), best_neighbour := Some cur\<rparr>"
      by auto
    then show ?thesis
    proof cases
      case 1
      with old[OF n] n' show ?thesis by simp
    next
      case 2
      from old[OF nc cur'] 2(3) obtain p where p: "pred_path N' cur p" "hd p = s" "distinct p"
        "set (butlast p) \<inter> set U' = {}" "is_path g p"
        "distance nc = Fin (path_weight Distance g p)" "cost nc = Fin (path_weight Cost g p)"
        unfolding tree_ok_def by (cases m) auto
      from pred_path_last[OF p(1)] have pl: "p \<noteq> []" "last p = cur" by auto
      have "cur \<notin> set U'" using sU' by simp
      with pred_path_set_butlast[OF p(1)] p(4) 2(1) have vp: "v \<notin> set p" by auto
      have "pred_path N' v (p @ [v])"
        using n' 2(4) p(1) by (intro pred_path.step[where n = n' and u = cur]) auto
      moreover have "hd (p @ [v]) = s" using pl p(2) by simp
      moreover have "distinct (p @ [v])" using p(3) vp by simp
      moreover have "set (butlast (p @ [v])) \<inter> set U' = {}"
        using pred_path_set_butlast[OF p(1)] p(4) \<open>cur \<notin> set U'\<close> by auto
      moreover have "is_path g (p @ [v])"
        using p(5) pl 2(2) by (intro is_path_snoc) auto
      moreover have "distance n' = Fin (path_weight Distance g (p @ [v]))"
        using 2(4) p(6) path_weight_snoc[of p g v e Distance] pl 2(2) by simp
      moreover have "cost n' = Fin (path_weight Cost g (p @ [v]))"
        using 2(4) p(7) path_weight_snoc[of p g v e Cost] pl 2(2) by simp
      ultimately show ?thesis unfolding tree_ok_def by blast
    qed
  qed
  have "dom N' = vertices g" "distinct U'" "set U' \<subseteq> vertices g"
    using dom I1 dU' sU' by auto
  moreover have "start_ok s N'" using start s' by (simp add: start_ok_def)
  moreover have "nonneg_acc m N'" unfolding nonneg_acc_def using J3 by blast
  moreover have "tree_inv g s U' N'" unfolding tree_inv_def using J4 by blast
  moreover have "relaxed_inv m g U' N'" unfolding relaxed_inv_def using J5 by blast
  moreover have "order_inv m U' N'" unfolding order_inv_def using J6 by blast
  ultimately have "invar m g s U' N'"
    by (simp add: invar_def)
  with keep' sU' show ?thesis by blast
qed

subsection \<open>The initial state\<close>

lemma init_nodes_apply:
  "init_nodes vs N v =
     (if v \<in> set vs then Some \<lparr>cost = Inf, distance = Inf, best_neighbour = None\<rparr> else N v)"
  by (induction vs arbitrary: N) auto

lemma initial_state_absent:
  "starting_vertex \<notin> set (map fst graph) \<Longrightarrow>
     initial_state graph starting_vertex = Inl (KeyError starting_vertex)"
  by (simp add: initial_state_def init_nodes_apply)

lemma initial_state_present:
  "starting_vertex \<in> set (map fst graph) \<Longrightarrow>
     initial_state graph starting_vertex =
       Inr (map fst graph,
            (init_nodes (map fst graph) Map.empty)(starting_vertex \<mapsto>
               \<lparr>cost = Fin 0, distance = Fin 0, best_neighbour = None\<rparr>))"
  by (simp add: initial_state_def init_nodes_apply)

lemma follow_KeyError_aux:
  assumes "follow N v path = Some r"
  shows "r = Inl (KeyError k) \<longrightarrow> k \<notin> dom N"
proof (rule follow.raw_induct[where P = "\<lambda>N v path r. r = Inl (KeyError k) \<longrightarrow> k \<notin> dom N",
      OF _ assms], goal_cases)
  case (1 f N v path y)
  from 1(2) show ?case
    by (auto split: option.splits dest: 1(1))
qed

lemma follow_KeyError:
  "follow N v path = Some (Inl (KeyError k)) \<Longrightarrow> k \<notin> dom N"
  using follow_KeyError_aux by blast

lemma follow_absent: "N v = None \<Longrightarrow> follow N v path = Some (Inl (KeyError v))"
  by (subst follow.simps) simp

subsection \<open>Invariants that need no assumption on the weights\<close>

lemma both_finD: "both_fin N \<Longrightarrow> N v = Some n \<Longrightarrow> (distance n = Inf \<longleftrightarrow> cost n = Inf)"
  unfolding both_fin_def by blast

lemma untouchedD:
  "untouched s N \<Longrightarrow> N v = Some n \<Longrightarrow> best_neighbour n = None \<Longrightarrow> v \<noteq> s \<Longrightarrow>
     distance n = Inf \<and> cost n = Inf"
  unfolding untouched_def by blast

lemma relax_dom: "relax m g u N v = Inr N' \<Longrightarrow> dom N' = dom N"
  by (drule relax_Inr) (auto split: if_splits)

lemma relax_both_fin:
  assumes "relax m g u N v = Inr N'" and "both_fin N"
  shows "both_fin N'"
proof -
  from relax_Inr[OF assms(1)] obtain n nr where n: "N v = Some n"
    and N': "N' = N(v \<mapsto> nr)"
    and r: "nr = n \<or>
            (\<exists>d c. distance nr = Fin d \<and> cost nr = Fin c \<and> best_neighbour nr = Some u)"
    by blast
  have "distance n' = Inf \<longleftrightarrow> cost n' = Inf" if "N' w = Some n'" for w n'
  proof (cases "w = v")
    case True
    with that N' have "n' = nr" by simp
    with r both_finD[OF assms(2) n] show ?thesis by auto
  next
    case False
    with that N' have "N w = Some n'" by simp
    then show ?thesis by (rule both_finD[OF assms(2)])
  qed
  then show ?thesis unfolding both_fin_def by blast
qed

lemma relax_untouched:
  assumes "relax m g u N v = Inr N'" and "untouched s N"
  shows "untouched s N'"
proof -
  from relax_Inr[OF assms(1)] obtain n nr where n: "N v = Some n"
    and N': "N' = N(v \<mapsto> nr)"
    and r: "nr = n \<or>
            (\<exists>d c. distance nr = Fin d \<and> cost nr = Fin c \<and> best_neighbour nr = Some u)"
    by blast
  have "distance n' = Inf \<and> cost n' = Inf"
    if "N' w = Some n'" "best_neighbour n' = None" "w \<noteq> s" for w n'
  proof (cases "w = v")
    case True
    with that(1) N' have "n' = nr" by simp
    with r that(2) have "n' = n" by auto
    with untouchedD[OF assms(2) n] that True show ?thesis by simp
  next
    case False
    with that(1) N' have "N w = Some n'" by simp
    from untouchedD[OF assms(2) this that(2,3)] show ?thesis .
  qed
  then show ?thesis unfolding untouched_def by blast
qed

lemma relax_all_preserves:
  assumes "\<And>N N' v. relax m g u N v = Inr N' \<Longrightarrow> P N \<Longrightarrow> P N'"
  shows "relax_all m g u nbs N = Inr N' \<Longrightarrow> P N \<Longrightarrow> P N'"
proof (induction nbs arbitrary: N)
  case Nil
  then show ?case by simp
next
  case (Cons w nbs)
  from Cons.prems(1) obtain N1 where "relax m g u N w = Inr N1" "relax_all m g u nbs N1 = Inr N'"
    by (auto split: sum.splits)
  with Cons.IH[of N1] assms[of N w N1] Cons.prems(2) show ?case by blast
qed

lemma loop_body_preserves:
  assumes "\<And>u N N' v. relax m g u N v = Inr N' \<Longrightarrow> P N \<Longrightarrow> P N'"
    and "loop_body m g st = Inr st'" and "P (snd st)"
  shows "P (snd st')"
proof -
  from assms(2) obtain cur where
    "recalculate_neighbour_position g cur (snd st) m = Inr (snd st')"
    by (auto simp: loop_body_def split: sum.splits)
  then obtain row :: "(string \<times> edge) list" where
    ra: "relax_all m g cur (map fst row) (snd st) = Inr (snd st')"
    by (auto simp: recalculate_neighbour_position_def split: option.splits)
  from relax_all_preserves[of m g cur P, OF assms(1) ra assms(3)] show ?thesis .
qed

lemma loop_body_unvisited:
  "loop_body m g st = Inr st' \<Longrightarrow> \<exists>cur. cur \<in> set (fst st) \<and> fst st' = remove1 cur (fst st)"
  by (auto simp: loop_body_def split: sum.splits dest: select_nearest_mem)

subsection \<open>Iterations and the whole loop\<close>

lemma loop_iter_preserves:
  assumes "\<And>st st'. fst st \<noteq> [] \<Longrightarrow> loop_body m g st = Inr st' \<Longrightarrow> P st \<Longrightarrow> P st'"
  shows "loop_iter k m g st = Inr st' \<Longrightarrow> P st \<Longrightarrow> P st'"
proof (induction k arbitrary: st)
  case 0
  then show ?case by simp
next
  case (Suc k)
  show ?case
  proof (cases "fst st = []")
    case True
    with Suc.prems show ?thesis by simp
  next
    case False
    with Suc.prems(1) obtain st1 where "loop_body m g st = Inr st1" "loop_iter k m g st1 = Inr st'"
      by (auto split: sum.splits)
    with Suc.IH[of st1] assms[OF False, of st1] Suc.prems(2) show ?thesis by blast
  qed
qed

lemma main_loop_iter:
  "main_loop m g st = Inr N' \<Longrightarrow> \<exists>k. loop_iter k m g st = Inr ([], N')"
proof (induction m g st rule: main_loop.induct)
  case (1 m g U N)
  show ?case
  proof (cases "U = []")
    case True
    with 1 have "loop_iter 0 m g (U, N) = Inr ([], N')" by simp
    then show ?thesis by blast
  next
    case False
    with "1.prems" obtain st1 where lb: "loop_body m g (U, N) = Inr st1"
      and ml: "main_loop m g st1 = Inr N'"
      by (auto split: sum.splits)
    from "1.IH"[OF False lb ml] obtain k where "loop_iter k m g st1 = Inr ([], N')" by blast
    with False lb have "loop_iter (Suc k) m g (U, N) = Inr ([], N')" by simp
    then show ?thesis by blast
  qed
qed

lemma main_loop_after_iter:
  "loop_iter k m g st = Inr st' \<Longrightarrow> main_loop m g st' = main_loop m g st"
proof (induction k arbitrary: st)
  case 0
  then show ?case by simp
next
  case (Suc k)
  show ?case
  proof (cases "fst st = []")
    case True
    with Suc.prems show ?thesis by simp
  next
    case False
    with Suc.prems obtain st1 where lb: "loop_body m g st = Inr st1"
      and it: "loop_iter k m g st1 = Inr st'"
      by (auto split: sum.splits)
    from Suc.IH[OF it] have "main_loop m g st' = main_loop m g st1" .
    also have "main_loop m g st1 = main_loop m g st"
      using False lb by (cases st) simp
    finally show ?thesis .
  qed
qed

lemma main_loop_total:
  assumes "\<And>st. fst st \<noteq> [] \<Longrightarrow> P st \<Longrightarrow> \<exists>st'. loop_body m g st = Inr st' \<and> P st'"
  shows "P st \<Longrightarrow> \<exists>N'. main_loop m g st = Inr N'"
proof (induction "length (fst st)" arbitrary: st rule: less_induct)
  case less
  obtain U N where st: "st = (U, N)" by (cases st)
  show ?case
  proof (cases "U = []")
    case True
    with st show ?thesis by simp
  next
    case False
    with assms[of st] less.prems st obtain st1 where lb: "loop_body m g st = Inr st1" and "P st1"
      by auto
    obtain U1 N1 where st1: "st1 = (U1, N1)" by (cases st1)
    from lb st st1 have "length (fst st1) < length (fst st)"
      by (auto dest: loop_body_length)
    from less.hyps[OF this \<open>P st1\<close>] obtain N' where "main_loop m g st1 = Inr N'" by blast
    with False lb st show ?thesis by simp
  qed
qed

subsection \<open>The invariants in the initial and in the returned state\<close>

lemma initial_state_Inr:
  assumes "initial_state g s = Inr (U, N)"
  shows "s \<in> set (map fst g)" and "U = map fst g"
    and "N = (init_nodes (map fst g) Map.empty)(s \<mapsto>
               \<lparr>cost = Fin 0, distance = Fin 0, best_neighbour = None\<rparr>)"
proof -
  show s: "s \<in> set (map fst g)"
  proof (rule ccontr)
    assume "s \<notin> set (map fst g)"
    from initial_state_absent[OF this] assms show False by simp
  qed
  from initial_state_present[OF s] assms show "U = map fst g"
    and "N = (init_nodes (map fst g) Map.empty)(s \<mapsto>
               \<lparr>cost = Fin 0, distance = Fin 0, best_neighbour = None\<rparr>)"
    by simp_all
qed

lemma initial_nodes_cases:
  assumes "initial_state g s = Inr (U, N)" and "N v = Some n"
  shows "v \<in> set (map fst g) \<and>
         (if v = s then n = \<lparr>cost = Fin 0, distance = Fin 0, best_neighbour = None\<rparr>
          else n = \<lparr>cost = Inf, distance = Inf, best_neighbour = None\<rparr>)"
  using assms(2) unfolding initial_state_Inr(3)[OF assms(1)]
  using initial_state_Inr(1)[OF assms(1)]
  by (auto simp: init_nodes_apply split: if_splits)

lemma initial_dom:
  assumes "initial_state g s = Inr (U, N)"
  shows "dom N = vertices g"
  unfolding initial_state_Inr(3)[OF assms] vertices_def
  using initial_state_Inr(1)[OF assms]
  by (fastforce simp: init_nodes_apply split: if_splits)

lemma initial_both_fin: "initial_state g s = Inr (U, N) \<Longrightarrow> both_fin N"
  unfolding both_fin_def by (auto dest!: initial_nodes_cases split: if_splits)

lemma initial_untouched: "initial_state g s = Inr (U, N) \<Longrightarrow> untouched s N"
  unfolding untouched_def by (auto dest!: initial_nodes_cases split: if_splits)

lemma initial_invar:
  assumes init: "initial_state g s = Inr (U, N)" and dist: "distinct (map fst g)"
  shows "invar m g s U N"
proof -
  note U = initial_state_Inr(2)[OF init]
  note cases = initial_nodes_cases[OF init]
  have dom: "dom N = vertices g" by (rule initial_dom[OF init])
  have Ns: "N s = Some \<lparr>cost = Fin 0, distance = Fin 0, best_neighbour = None\<rparr>"
    unfolding initial_state_Inr(3)[OF init] by simp
  have visited: "N u = None" if "u \<notin> set U" for u
    using that dom U by (auto simp: vertices_def domIff)
  have "start_ok s N" using Ns by (simp add: start_ok_def)
  moreover have "nonneg_acc m N"
    unfolding nonneg_acc_def
  proof (intro allI impI)
    fix v n x assume "N v = Some n" "acc m n = Fin x"
    with cases[of v n] show "0 \<le> x" by (cases m) (auto split: if_splits)
  qed
  moreover have "tree_inv g s U N"
    unfolding tree_inv_def
  proof (intro allI impI)
    fix v n assume n: "N v = Some n"
    show "tree_ok g s U N v n"
    proof (cases "v = s")
      case True
      with n Ns have n': "n = \<lparr>cost = Fin 0, distance = Fin 0, best_neighbour = None\<rparr>" by simp
      have "pred_path N s [s]" using Ns by (rule pred_path.root) simp
      with True n' show ?thesis unfolding tree_ok_def by (intro disjI2 exI[of _ "[s]"]) simp
    next
      case False
      with cases[OF n] show ?thesis unfolding tree_ok_def by simp
    qed
  qed
  moreover have "relaxed_inv m g U N"
    unfolding relaxed_inv_def using visited by auto
  moreover have "order_inv m U N"
    unfolding order_inv_def using visited by auto
  ultimately show ?thesis
    using dom dist U by (simp add: invar_def vertices_def)
qed

lemma loop_iter_invar:
  assumes "nonneg_graph g" and "sums_fit g" and "loop_iter k m g (U, N) = Inr (U', N')"
    and "invar m g s U N"
  shows "invar m g s U' N'"
proof -
  have "invar m g s (fst (U', N')) (snd (U', N'))"
  proof (rule loop_iter_preserves[of m g "\<lambda>st. invar m g s (fst st) (snd st)", OF _ assms(3)])
    show "invar m g s (fst (U, N)) (snd (U, N))" using assms(4) by simp
  next
    fix st st' :: "string list \<times> nodes"
    assume "loop_body m g st = Inr st'" "invar m g s (fst st) (snd st)"
    then show "invar m g s (fst st') (snd st')"
      using invar_step_all[OF _ assms(1,2), of m s "fst st" "snd st" "fst st'" "snd st'"] by simp
  qed
  then show ?thesis by simp
qed

lemma loop_body_inv0:
  assumes "loop_body m g st = Inr st'" and "both_fin (snd st) \<and> untouched s (snd st)"
  shows "both_fin (snd st') \<and> untouched s (snd st')"
proof
  show "both_fin (snd st')"
  proof (rule loop_body_preserves[of m g both_fin, OF _ assms(1)])
    show "both_fin (snd st)" using assms(2) by simp
  qed (rule relax_both_fin)
  show "untouched s (snd st')"
  proof (rule loop_body_preserves[of m g "untouched s", OF _ assms(1)])
    show "untouched s (snd st)" using assms(2) by simp
  qed (rule relax_untouched)
qed

lemma loop_iter_inv0:
  assumes "loop_iter k m g st = Inr st'" and "both_fin (snd st)" and "untouched s (snd st)"
  shows "both_fin (snd st') \<and> untouched s (snd st')"
proof (rule loop_iter_preserves[of m g "\<lambda>st. both_fin (snd st) \<and> untouched s (snd st)",
      OF _ assms(1)])
  show "both_fin (snd st) \<and> untouched s (snd st)" using assms(2,3) by simp
qed (rule loop_body_inv0)

lemma calculate_Inr:
  assumes "calculate_shortest_paths m g s = Inr N"
  obtains st0 k where "initial_state g s = Inr st0" and "loop_iter k m g st0 = Inr ([], N)"
proof -
  from assms obtain st0 where init: "initial_state g s = Inr st0" and ml: "main_loop m g st0 = Inr N"
    by (auto simp: calculate_shortest_paths_def split: sum.splits)
  from main_loop_iter[OF ml] obtain k where "loop_iter k m g st0 = Inr ([], N)" by blast
  with init show ?thesis by (rule that)
qed

lemma calculate_invar:
  assumes "calculate_shortest_paths m g s = Inr N" and "nonneg_graph g" and "sums_fit g"
    and "distinct (map fst g)"
  shows "invar m g s [] N"
proof -
  from assms(1) obtain st0 k where init: "initial_state g s = Inr st0"
    and it: "loop_iter k m g st0 = Inr ([], N)"
    by (rule calculate_Inr)
  obtain U0 N0 where st0: "st0 = (U0, N0)" by (cases st0)
  from initial_invar[OF init[unfolded st0] assms(4)] have "invar m g s U0 N0" .
  from loop_iter_invar[OF assms(2,3) it[unfolded st0] this] show ?thesis .
qed

lemma calculate_inv0:
  assumes "calculate_shortest_paths m g s = Inr N"
  shows "both_fin N" and "untouched s N"
proof -
  from assms(1) obtain st0 k where init: "initial_state g s = Inr st0"
    and it: "loop_iter k m g st0 = Inr ([], N)"
    by (rule calculate_Inr)
  obtain U0 N0 where st0: "st0 = (U0, N0)" by (cases st0)
  from loop_iter_inv0[OF it, of s] initial_both_fin[OF init[unfolded st0]]
    initial_untouched[OF init[unfolded st0]] st0
  show "both_fin N" and "untouched s N" by simp_all
qed

subsection \<open>Consequences in the returned state\<close>

lemma path_upper_bound:
  "is_path g p \<Longrightarrow> relaxed_inv m g [] N \<Longrightarrow> N (hd p) = Some nu \<Longrightarrow> acc m nu = Fin a \<Longrightarrow>
     \<exists>nv b. N (last p) = Some nv \<and> acc m nv = Fin b \<and> b \<le> a + path_weight m g p"
proof (induction g p arbitrary: nu a rule: is_path.induct)
  case (1 g)
  then show ?case by simp
next
  case (2 g v)
  then show ?case by simp
next
  case (3 g u w rest)
  from "3.prems"(1) obtain e where e: "edge_of g u w = Some e" and rest: "is_path g (w # rest)"
    by auto
  from relaxed_invD[OF "3.prems"(2) _ e, of nu a] "3.prems"(3,4)
  obtain nw b1 where nw: "N w = Some nw" "acc m nw = Fin b1" "b1 \<le> weight m e + a"
    by auto
  from "3.IH"[OF rest "3.prems"(2) _ nw(2)] nw(1)
  obtain nv b where "N (last (w # rest)) = Some nv" "acc m nv = Fin b"
    "b \<le> b1 + path_weight m g (w # rest)" by auto
  with nw(3) e show ?case by auto
qed

lemma tree_path_finite:
  assumes "tree_inv g s U N" and "N v = Some n" and "acc m n = Fin x"
  shows "\<exists>p. pred_path N v p \<and> hd p = s \<and> distinct p \<and> is_path g p \<and>
           distance n = Fin (path_weight Distance g p) \<and> cost n = Fin (path_weight Cost g p)"
  using tree_invD[OF assms(1,2)] assms(3) unfolding tree_ok_def
  by (cases m) auto

lemma tree_path_any:
  assumes "tree_inv g s U N" and "N v = Some n"
  shows "\<exists>p. pred_path N v p \<and> distinct p"
proof -
  from tree_invD[OF assms] have "best_neighbour n = None \<or> (\<exists>p. pred_path N v p \<and> distinct p)"
    unfolding tree_ok_def by auto
  then show ?thesis
  proof
    assume "best_neighbour n = None"
    with assms(2) have "pred_path N v [v]" by (rule pred_path.root)
    then show ?thesis by (intro exI[of _ "[v]"]) simp
  qed
qed

lemma pred_path_root:
  "pred_path N v p \<Longrightarrow> \<exists>n. N (hd p) = Some n \<and> best_neighbour n = None"
proof (induction rule: pred_path.induct)
  case (root N v n)
  then show ?case by simp
next
  case (step N v n u p)
  from pred_path_last[OF step.hyps(3)] have "hd (p @ [v]) = hd p" by simp
  with step.IH show ?case by simp
qed

lemma butlast_dashes: "butlast (concat (map (\<lambda>node. node @ ''-'') p)) = joined p"
proof (induction p rule: joined.induct)
  case (3 v w rest)
  have "concat (map (\<lambda>node. node @ ''-'') (w # rest)) \<noteq> []" by simp
  then have "butlast (concat (map (\<lambda>node. node @ ''-'') (v # w # rest))) =
      (v @ ''-'') @ butlast (concat (map (\<lambda>node. node @ ''-'') (w # rest)))"
    by (simp only: list.map concat.simps butlast_append if_False)
  with 3 show ?case by simp
qed simp_all

lemma render_joined: "render path = joined (rev path)"
  by (simp only: render_def butlast_dashes)

lemma get_best_path_pred_path:
  "pred_path N v p \<Longrightarrow> get_best_path N v = Some (Inr (joined p))"
  by (simp add: get_best_path_def follow_pred_path_start render_joined)

lemma path_weight_nonneg: "nonneg_weights m g \<Longrightarrow> 0 \<le> path_weight m g p"
proof (induction p rule: induct_list012)
  case (3 u v rest)
  with edge_of_nonneg[OF "3.prems", of u v] show ?case
    by (auto split: option.splits)
qed simp_all

subsection \<open>A cycle of predecessor links\<close>

lemma follow_cycle_aux:
  assumes "follow N v path = Some y"
  shows "(\<forall>w\<in>S. \<exists>n d. N w = Some n \<and> best_neighbour n = Some d \<and> d \<in> S) \<longrightarrow> v \<notin> S"
proof (rule follow.raw_induct[where
      P = "\<lambda>N v path y. (\<forall>w\<in>S. \<exists>n d. N w = Some n \<and> best_neighbour n = Some d \<and> d \<in> S)
             \<longrightarrow> v \<notin> S",
      OF _ assms], goal_cases)
  case (1 f N v path y)
  show ?case
  proof (intro impI notI)
    assume cyc: "\<forall>w\<in>S. \<exists>n d. N w = Some n \<and> best_neighbour n = Some d \<and> d \<in> S" and "v \<in> S"
    then obtain n d where "N v = Some n" "best_neighbour n = Some d" "d \<in> S" by blast
    with 1(2) have "f N d (path @ [d]) = Some y" by simp
    from 1(1)[OF this] cyc \<open>d \<in> S\<close> show False by blast
  qed
qed

lemma follow_cycle:
  assumes "\<forall>w\<in>S. \<exists>n d. N w = Some n \<and> best_neighbour n = Some d \<and> d \<in> S" and "v \<in> S"
  shows "follow N v path = None"
proof (cases "follow N v path")
  case (Some y)
  from follow_cycle_aux[OF this, of S] assms show ?thesis by blast
qed simp

subsection \<open>When the run returns\<close>

lemma improves_finite:
  assumes "improves m n (py_add wd (distance nu)) (py_add wc (cost nu))"
    and "distance nu = Inf \<longleftrightarrow> cost nu = Inf"
  shows "\<exists>d c. py_add wd (distance nu) = Fin d \<and> py_add wc (cost nu) = Fin c"
  using assms by (cases "distance nu"; cases "cost nu") (auto simp: improves_def)

lemma relax_ok:
  assumes row: "map_of g u = Some row" and e: "map_of row v = Some e"
    and nu: "N u = Some nu" and n: "N v = Some n"
    and bf: "both_fin N"
  shows "\<exists>N'. relax m g u N v = Inr N'"
proof -
  have ad: "alternate Distance g u N v = Inr (py_add (edge_distance e) (distance nu))"
    using row e nu by (simp add: alternate_def)
  have ac: "alternate Cost g u N v = Inr (py_add (edge_cost e) (cost nu))"
    using row e nu by (simp add: alternate_def)
  show ?thesis
  proof (cases "improves m n (py_add (edge_distance e) (distance nu))
      (py_add (edge_cost e) (cost nu))")
    case True
    from improves_finite[OF True both_finD[OF bf nu]] obtain d c where
      "py_add (edge_distance e) (distance nu) = Fin d" "py_add (edge_cost e) (cost nu) = Fin c"
      by blast
    with True ad ac n show ?thesis by (simp add: relax_def)
  next
    case False
    with ad ac n show ?thesis by (simp add: relax_def)
  qed
qed

lemma relax_all_ok:
  assumes row: "map_of g u = Some row"
  shows "set nbs \<subseteq> fst ` set row \<Longrightarrow> fst ` set row \<subseteq> dom N \<Longrightarrow> u \<in> dom N \<Longrightarrow> both_fin N \<Longrightarrow>
     \<exists>N'. relax_all m g u nbs N = Inr N'"
proof (induction nbs arbitrary: N)
  case Nil
  then show ?case by simp
next
  case (Cons v nbs)
  from Cons.prems(1) obtain e where e: "map_of row v = Some e"
    by (cases "map_of row v") (auto simp: map_of_eq_None_iff)
  from Cons.prems(1,2,3) obtain nu n where nu: "N u = Some nu" and n: "N v = Some n"
    by auto
  from relax_ok[OF row e nu n Cons.prems(4)] obtain N1 where
    r: "relax m g u N v = Inr N1" by blast
  from relax_dom[OF r] relax_both_fin[OF r Cons.prems(4)] Cons.prems
  have "\<exists>N'. relax_all m g u nbs N1 = Inr N'"
    by (intro Cons.IH) auto
  with r show ?case by simp
qed

lemma loop_body_ok:
  assumes cl: "closed_graph g"
    and dom: "dom N = set (map fst g)" and U: "set U \<subseteq> set (map fst g)" and ne: "U \<noteq> []"
    and bf: "both_fin N"
  shows "\<exists>U' N'. loop_body m g (U, N) = Inr (U', N') \<and> dom N' = set (map fst g) \<and>
           set U' \<subseteq> set (map fst g) \<and> both_fin N'"
proof -
  from select_nearest_ok[OF ne, of N m] U dom obtain cur where
    sel: "select_nearest m N U = Inr cur" by auto
  from select_nearest_mem[OF sel] U have cur: "cur \<in> set (map fst g)" by auto
  then obtain row where row: "map_of g cur = Some row"
    by (cases "map_of g cur") (auto simp: map_of_eq_None_iff)
  from map_of_SomeD[OF row] have mem: "(cur, row) \<in> set g" .
  have sub: "fst ` set row \<subseteq> dom N"
    using cl mem dom by (fastforce simp: closed_graph_def list_all_iff)
  from relax_all_ok[OF row, where nbs = "map fst row" and N = N and m = m] sub cur dom bf obtain N' where
    ra: "relax_all m g cur (map fst row) N = Inr N'" by auto
  have lb: "loop_body m g (U, N) = Inr (remove1 cur U, N')"
    using sel row ra by (simp add: loop_body_def recalculate_neighbour_position_def)
  have "dom N' = dom N"
  proof (rule relax_all_preserves[of m g cur "\<lambda>M. dom M = dom N", OF _ ra])
    show "dom N = dom N" by simp
  qed (simp add: relax_dom)
  moreover have "both_fin N'"
  proof (rule relax_all_preserves[of m g cur both_fin, OF _ ra])
    show "both_fin N" by (rule bf)
  qed (rule relax_both_fin)
  moreover have "set (remove1 cur U) \<subseteq> set (map fst g)"
    using U set_remove1_subset[of cur U] by blast
  ultimately show ?thesis using lb dom by blast
qed

lemma calculate_total:
  assumes "closed_graph g" and "s \<in> set (map fst g)"
  shows "\<exists>N. calculate_shortest_paths m g s = Inr N"
proof -
  from initial_state_present[OF assms(2)] obtain U N where
    init: "initial_state g s = Inr (U, N)" by blast
  let ?P = "\<lambda>st. dom (snd st) = set (map fst g) \<and> set (fst st) \<subseteq> set (map fst g) \<and>
    both_fin (snd st)"
  have P0: "?P (U, N)"
    using initial_dom[OF init] initial_state_Inr(2)[OF init] initial_both_fin[OF init]
    by (simp add: vertices_def)
  have "\<exists>N'. main_loop m g (U, N) = Inr N'"
  proof (rule main_loop_total[of ?P, OF _ P0])
    fix st :: "string list \<times> nodes"
    assume "fst st \<noteq> []" "?P st"
    with loop_body_ok[OF assms(1), of "snd st" "fst st" m]
    show "\<exists>st'. loop_body m g st = Inr st' \<and> ?P st'" by auto
  qed
  with init show ?thesis by (simp add: calculate_shortest_paths_def)
qed

section \<open>Start vertex absent from the graph\<close>

text \<open>
  C3, as the claim states it, fails: with a start vertex that is not a key of the graph,
  \<^verbatim>\<open>nodes[starting_vertex]["cost"] = 0\<close> raises \<^verbatim>\<open>KeyError\<close>; no mapping is returned.
  Here the graph has the single vertex \<open>A\<close> and the start is \<open>B\<close>.
\<close>

theorem start_absent_counterexample:
  "calculate_shortest_paths Distance [(''A'', [])] ''B'' = Inl (KeyError ''B'')"
  by (simp add: calculate_shortest_paths_def initial_state_def)

text \<open>
  C3, amended: for every graph, every metric and every start vertex that is absent from the
  graph's keys, \<open>calculate_shortest_paths\<close> raises \<^verbatim>\<open>KeyError\<close> on the start vertex
  and returns no mapping.
\<close>

theorem start_absent_raises:
  "starting_vertex \<notin> set (map fst graph) \<Longrightarrow>
     calculate_shortest_paths m graph starting_vertex = Inl (KeyError starting_vertex)"
  by (simp add: calculate_shortest_paths_def initial_state_absent)

theorem start_absent_raises_witness:
  "''D'' \<notin> set (map fst [(''A'', [(''B'', \<lparr>edge_distance = 10, edge_cost = 200\<rparr>)]), (''B'', [])]) \<and>
   calculate_shortest_paths Cost [(''A'', [(''B'', \<lparr>edge_distance = 10, edge_cost = 200\<rparr>)]), (''B'', [])] ''D''
     = Inl (KeyError ''D'')"
  using start_absent_raises
    [of "''D''" "[(''A'', [(''B'', \<lparr>edge_distance = 10, edge_cost = 200\<rparr>)]), (''B'', [])]" Cost]
  by simp

section \<open>Destination absent from the node states\<close>

text \<open>
  C4: for every mapping of node states, \<open>get_best_path\<close> on a destination that is not a key
  fails with the \<^verbatim>\<open>KeyError\<close> of that destination (it returns no path), and on a
  destination that is a key it does not fail with that error. (On a mapping that
  \<open>calculate_shortest_paths\<close> did not build, the walk can still raise the \<^verbatim>\<open>KeyError\<close> of
  another label: a predecessor that is not a key.)
\<close>

theorem get_best_path_invalid_destination:
  "(destination \<notin> dom nodes \<longrightarrow>
      get_best_path nodes destination = Some (Inl (KeyError destination))) \<and>
   (destination \<in> dom nodes \<longrightarrow>
      get_best_path nodes destination \<noteq> Some (Inl (KeyError destination)))"
proof (intro conjI impI)
  assume "destination \<notin> dom nodes"
  then have "nodes destination = None" by (simp add: domIff)
  then show "get_best_path nodes destination = Some (Inl (KeyError destination))"
    by (simp add: get_best_path_def follow_absent)
next
  assume present: "destination \<in> dom nodes"
  show "get_best_path nodes destination \<noteq> Some (Inl (KeyError destination))"
  proof
    assume "get_best_path nodes destination = Some (Inl (KeyError destination))"
    then have "follow nodes destination [destination] = Some (Inl (KeyError destination))"
      by (auto simp: get_best_path_def split: option.splits sum.splits)
    then have "destination \<notin> dom nodes" by (rule follow_KeyError)
    with present show False by simp
  qed
qed

theorem get_best_path_invalid_destination_witness:
  "''Z'' \<notin> dom [''A'' \<mapsto> \<lparr>cost = Fin 0, distance = Fin 0, best_neighbour = None\<rparr>] \<and>
   get_best_path [''A'' \<mapsto> \<lparr>cost = Fin 0, distance = Fin 0, best_neighbour = None\<rparr>] ''Z''
     = Some (Inl (KeyError ''Z'')) \<and>
   ''A'' \<in> dom [''A'' \<mapsto> \<lparr>cost = Fin 0, distance = Fin 0, best_neighbour = None\<rparr>] \<and>
   get_best_path [''A'' \<mapsto> \<lparr>cost = Fin 0, distance = Fin 0, best_neighbour = None\<rparr>] ''A''
     \<noteq> Some (Inl (KeyError ''A''))"
  using get_best_path_invalid_destination
      [of "''Z''" "[''A'' \<mapsto> \<lparr>cost = Fin 0, distance = Fin 0, best_neighbour = None\<rparr>]"]
    get_best_path_invalid_destination
      [of "''A''" "[''A'' \<mapsto> \<lparr>cost = Fin 0, distance = Fin 0, best_neighbour = None\<rparr>]"]
  by simp

subsection \<open>Runs on the example graphs\<close>

lemma example_graph_D:
  "\<exists>nodes. calculate_shortest_paths Distance example_graph ''A'' = Inr nodes \<and>
     nodes ''D'' = Some \<lparr>cost = Inf, distance = Inf, best_neighbour = None\<rparr>"
proof -
  have "(case calculate_shortest_paths Distance example_graph ''A'' of
           Inl e \<Rightarrow> None | Inr nodes \<Rightarrow> nodes ''D'')
        = Some \<lparr>cost = Inf, distance = Inf, best_neighbour = None\<rparr>"
    by code_simp
  then show ?thesis
    by (cases "calculate_shortest_paths Distance example_graph ''A''") simp_all
qed

lemma detour_graph_C:
  "\<exists>nodes. calculate_shortest_paths Cost detour_graph ''A'' = Inr nodes \<and>
     nodes ''C'' = Some \<lparr>cost = Fin 1, distance = Fin 5, best_neighbour = Some ''A''\<rparr> \<and>
     follow nodes ''C'' [''C''] = Some (Inr [''C'', ''A''])"
proof -
  have "(case calculate_shortest_paths Cost detour_graph ''A'' of
           Inl e \<Rightarrow> False
         | Inr nodes \<Rightarrow>
             nodes ''C'' = Some \<lparr>cost = Fin 1, distance = Fin 5, best_neighbour = Some ''A''\<rparr> \<and>
             follow nodes ''C'' [''C''] = Some (Inr [''C'', ''A'']))"
    by code_simp
  then show ?thesis
    by (cases "calculate_shortest_paths Cost detour_graph ''A''") simp_all
qed

lemma detour_graph_ok:
  "pos_weights detour_graph" "distinct (map fst detour_graph)" "closed_graph detour_graph"
  "sums_fit detour_graph" "''A'' \<in> set (map fst detour_graph)"
  by (simp_all add: detour_graph_def pos_weights_def closed_graph_def sums_fit_def
      weight_limit_def)

lemma wrap_graph_built:
  "create_graph
     [[(''POINT'', ''A''), (''A'', ''0''), (''B'', ''4611686018427387904 1''), (''C'', ''0'')],
      [(''POINT'', ''B''), (''A'', ''0''), (''B'', ''0''), (''C'', ''4611686018427387904 1'')],
      [(''POINT'', ''C''), (''A'', ''0''), (''B'', ''0''), (''C'', ''0'')]]
   = Inr (map (\<lambda>(u, row). (u, map (\<lambda>(v, e). (v, Weights e)) row)) wrap_graph)"
  by code_simp

lemma cost_wrap_graph_built:
  "create_graph
     [[(''POINT'', ''A''), (''A'', ''0''), (''B'', ''1 4611686018427387904''), (''C'', ''0'')],
      [(''POINT'', ''B''), (''A'', ''0''), (''B'', ''0''), (''C'', ''1 4611686018427387904'')],
      [(''POINT'', ''C''), (''A'', ''0''), (''B'', ''0''), (''C'', ''0'')]]
   = Inr (map (\<lambda>(u, row). (u, map (\<lambda>(v, e). (v, Weights e)) row)) cost_wrap_graph)"
  by code_simp

lemma cycle_graph_built:
  "create_graph
     [[(''POINT'', ''A''), (''A'', ''0''), (''B'', ''1 1''), (''C'', ''0'')],
      [(''POINT'', ''B''), (''A'', ''0''), (''B'', ''0''), (''C'', ''9223372036854775807 1'')],
      [(''POINT'', ''C''), (''A'', ''1 1''), (''B'', ''0''), (''C'', ''0'')]]
   = Inr (map (\<lambda>(u, row). (u, map (\<lambda>(v, e). (v, Weights e)) row)) cycle_graph)"
  by code_simp

lemma wrap_graph_ok:
  "pos_weights wrap_graph" "distinct (map fst wrap_graph)" "closed_graph wrap_graph"
  "''A'' \<in> set (map fst wrap_graph)"
  by (simp_all add: wrap_graph_def pos_weights_def closed_graph_def)

lemma wrap_reachable_C: "reachable wrap_graph ''A'' ''C''"
  unfolding reachable_def
  by (rule exI[of _ "[''A'', ''B'', ''C'']"]) (simp add: wrap_graph_def edge_of_def)

lemma wrap_graph_C:
  "\<exists>nodes. calculate_shortest_paths Distance wrap_graph ''A'' = Inr nodes \<and>
     nodes ''C'' = Some \<lparr>cost = Fin (- 9223372036854775808),
       distance = Fin (- 9223372036854775808), best_neighbour = Some ''B''\<rparr> \<and>
     follow nodes ''C'' [''C''] = Some (Inr [''C'', ''B'', ''A'']) \<and>
     get_best_path nodes ''C'' = Some (Inr ''A-B-C'')"
proof -
  have "(case calculate_shortest_paths Distance wrap_graph ''A'' of
           Inl e \<Rightarrow> False
         | Inr nodes \<Rightarrow>
             nodes ''C'' = Some \<lparr>cost = Fin (- 9223372036854775808),
               distance = Fin (- 9223372036854775808), best_neighbour = Some ''B''\<rparr> \<and>
             follow nodes ''C'' [''C''] = Some (Inr [''C'', ''B'', ''A'']) \<and>
             get_best_path nodes ''C'' = Some (Inr ''A-B-C''))"
    by code_simp
  then show ?thesis
    by (cases "calculate_shortest_paths Distance wrap_graph ''A''") simp_all
qed

lemma cycle_graph_ok:
  "pos_weights cycle_graph" "distinct (map fst cycle_graph)" "closed_graph cycle_graph"
  "''A'' \<in> set (map fst cycle_graph)"
  by (simp_all add: cycle_graph_def pos_weights_def closed_graph_def)

lemma cycle_graph_run:
  "\<exists>nodes. calculate_shortest_paths Distance cycle_graph ''A'' = Inr nodes \<and>
     nodes ''A'' = Some \<lparr>cost = Fin (- 9223372036854775807),
       distance = Fin (- 9223372036854775807), best_neighbour = Some ''C''\<rparr> \<and>
     nodes ''B'' = Some \<lparr>cost = Fin 1, distance = Fin 1, best_neighbour = Some ''A''\<rparr> \<and>
     nodes ''C'' = Some \<lparr>cost = Fin (- 9223372036854775808),
       distance = Fin (- 9223372036854775808), best_neighbour = Some ''B''\<rparr>"
proof -
  have "(case calculate_shortest_paths Distance cycle_graph ''A'' of
           Inl e \<Rightarrow> False
         | Inr nodes \<Rightarrow>
             nodes ''A'' = Some \<lparr>cost = Fin (- 9223372036854775807),
               distance = Fin (- 9223372036854775807), best_neighbour = Some ''C''\<rparr> \<and>
             nodes ''B'' = Some \<lparr>cost = Fin 1, distance = Fin 1, best_neighbour = Some ''A''\<rparr> \<and>
             nodes ''C'' = Some \<lparr>cost = Fin (- 9223372036854775808),
               distance = Fin (- 9223372036854775808), best_neighbour = Some ''B''\<rparr>)"
    by code_simp
  then show ?thesis
    by (cases "calculate_shortest_paths Distance cycle_graph ''A''") simp_all
qed

lemma detour_reachable_C: "reachable detour_graph ''A'' ''C''"
  unfolding reachable_def
  by (rule exI[of _ "[''A'', ''C'']"]) (simp add: detour_graph_def edge_of_def)

section \<open>Unreachable destination\<close>

text \<open>
  C7: in every mapping that \<open>calculate_shortest_paths\<close> returns, for every destination that
  is a key, has no predecessor and is not the start vertex, \<open>get_best_path\<close> returns the
  destination's label alone, and both accumulators of the destination are infinite, which is
  what the report prints. No error is raised.
\<close>

theorem unreachable_destination:
  assumes "calculate_shortest_paths m graph starting_vertex = Inr nodes"
    and "nodes destination = Some n" and "best_neighbour n = None"
    and "destination \<noteq> starting_vertex"
  shows "get_best_path nodes destination = Some (Inr destination) \<and>
         distance n = Inf \<and> cost n = Inf"
proof -
  from assms(2,3) have "pred_path nodes destination [destination]"
    by (rule pred_path.root)
  from get_best_path_pred_path[OF this]
  have "get_best_path nodes destination = Some (Inr destination)"
    by simp
  moreover from untouchedD[OF calculate_inv0(2)[OF assms(1)] assms(2,3,4)]
  have "distance n = Inf \<and> cost n = Inf" .
  ultimately show ?thesis by simp
qed

theorem unreachable_destination_witness:
  "\<exists>nodes n. calculate_shortest_paths Distance example_graph ''A'' = Inr nodes \<and>
     nodes ''D'' = Some n \<and> best_neighbour n = None \<and> ''D'' \<noteq> ''A'' \<and>
     get_best_path nodes ''D'' = Some (Inr ''D'') \<and> distance n = Inf \<and> cost n = Inf"
proof -
  from example_graph_D obtain nodes where
    c: "calculate_shortest_paths Distance example_graph ''A'' = Inr nodes"
    and d: "nodes ''D'' = Some \<lparr>cost = Inf, distance = Inf, best_neighbour = None\<rparr>"
    by blast
  have "get_best_path nodes ''D'' = Some (Inr ''D'') \<and>
    distance \<lparr>cost = Inf, distance = Inf, best_neighbour = None\<rparr> = Inf \<and>
    cost \<lparr>cost = Inf, distance = Inf, best_neighbour = None\<rparr> = Inf"
    by (rule unreachable_destination[OF c d]) simp_all
  with c d show ?thesis by auto
qed

section \<open>The predecessor links\<close>

text \<open>
  C10, as the claim states it, fails where a sum wraps around. In \<open>cycle_graph\<close>, whose
  weights are strictly positive, the run from \<open>A\<close> by distance gives \<open>B\<close> the distance 1; the
  sum for \<open>C\<close>, \<open>(2^63 - 1) + 1\<close>, wraps to \<open>- 2^63\<close>; the sum for \<open>A\<close> over the edge from \<open>C\<close>,
  \<open>1 - 2^63\<close>, is below the 0 of the start, so the start gets the predecessor \<open>C\<close>. The
  predecessor links form the cycle \<open>A\<close>, \<open>C\<close>, \<open>B\<close>, \<open>A\<close>, and \<open>get_best_path\<close> does not return.
\<close>

theorem predecessor_cycle_counterexample:
  "pos_weights cycle_graph \<and> distinct (map fst cycle_graph) \<and>
   ''A'' \<in> set (map fst cycle_graph) \<and>
   (\<exists>nodes. calculate_shortest_paths Distance cycle_graph ''A'' = Inr nodes \<and>
      nodes ''A'' = Some \<lparr>cost = Fin (- 9223372036854775807),
        distance = Fin (- 9223372036854775807), best_neighbour = Some ''C''\<rparr> \<and>
      nodes ''C'' = Some \<lparr>cost = Fin (- 9223372036854775808),
        distance = Fin (- 9223372036854775808), best_neighbour = Some ''B''\<rparr> \<and>
      nodes ''B'' = Some \<lparr>cost = Fin 1, distance = Fin 1, best_neighbour = Some ''A''\<rparr> \<and>
      ''A'' \<in> dom nodes \<and> follow nodes ''A'' [''A''] = None \<and>
      get_best_path nodes ''A'' = None)"
proof -
  from cycle_graph_run obtain nodes where
    c: "calculate_shortest_paths Distance cycle_graph ''A'' = Inr nodes"
    and a: "nodes ''A'' = Some \<lparr>cost = Fin (- 9223372036854775807),
       distance = Fin (- 9223372036854775807), best_neighbour = Some ''C''\<rparr>"
    and b: "nodes ''B'' = Some \<lparr>cost = Fin 1, distance = Fin 1, best_neighbour = Some ''A''\<rparr>"
    and d: "nodes ''C'' = Some \<lparr>cost = Fin (- 9223372036854775808),
       distance = Fin (- 9223372036854775808), best_neighbour = Some ''B''\<rparr>"
    by blast
  have "\<forall>w\<in>{''A'', ''B'', ''C''}. \<exists>n d. nodes w = Some n \<and> best_neighbour n = Some d \<and>
      d \<in> {''A'', ''B'', ''C''}"
    using a b d by simp
  then have f: "follow nodes ''A'' [''A''] = None"
    by (rule follow_cycle) simp
  then have "get_best_path nodes ''A'' = None"
    by (simp add: get_best_path_def)
  with f c a b d cycle_graph_ok show ?thesis by auto
qed

text \<open>
  C10, amended: on a graph with strictly positive weights, none above \<open>(2^63 - 1) div n\<close>
  for its \<open>n\<close> vertices (a dictionary: its keys are distinct), in every mapping that
  \<open>calculate_shortest_paths\<close> returns, the walk of \<open>get_best_path\<close> from any destination that
  is a key returns: it visits no vertex twice and ends at a vertex without predecessor; the
  result is the labels of the walk, in reverse order, joined by \<^verbatim>\<open>"-"\<close>.
\<close>

theorem predecessor_links_acyclic:
  assumes "pos_weights graph" and "sums_fit graph" and "distinct (map fst graph)"
    and "calculate_shortest_paths m graph starting_vertex = Inr nodes"
    and "destination \<in> dom nodes"
  shows "\<exists>path n. follow nodes destination [destination] = Some (Inr path) \<and> distinct path \<and>
           nodes (last path) = Some n \<and> best_neighbour n = None \<and>
           get_best_path nodes destination = Some (Inr (joined (rev path)))"
proof -
  from calculate_invar[OF assms(4) pos_nonneg[OF assms(1)] assms(2,3)]
  have "tree_inv graph starting_vertex [] nodes" by (simp add: invar_def)
  moreover from assms(5) obtain nd where "nodes destination = Some nd" by blast
  ultimately obtain p where p: "pred_path nodes destination p" "distinct p"
    using tree_path_any by blast
  from pred_path_root[OF p(1)] pred_path_last[OF p(1)]
  obtain n where "nodes (last (rev p)) = Some n" "best_neighbour n = None"
    by (auto simp: last_rev)
  with follow_pred_path_start[OF p(1)] get_best_path_pred_path[OF p(1)] p(2)
  show ?thesis by auto
qed

theorem predecessor_links_acyclic_witness:
  "pos_weights detour_graph \<and> sums_fit detour_graph \<and> distinct (map fst detour_graph) \<and>
   (\<exists>nodes. calculate_shortest_paths Cost detour_graph ''A'' = Inr nodes \<and> ''C'' \<in> dom nodes \<and>
      (\<exists>path n. follow nodes ''C'' [''C''] = Some (Inr path) \<and> distinct path \<and>
           nodes (last path) = Some n \<and> best_neighbour n = None \<and>
           get_best_path nodes ''C'' = Some (Inr (joined (rev path)))) \<and>
      get_best_path nodes ''C'' = Some (Inr ''A-C''))"
proof -
  from detour_graph_C obtain nodes where
    c: "calculate_shortest_paths Cost detour_graph ''A'' = Inr nodes"
    and d: "''C'' \<in> dom nodes"
    and f: "follow nodes ''C'' [''C''] = Some (Inr [''C'', ''A''])"
    by blast
  from predecessor_links_acyclic[OF detour_graph_ok(1,4,2) c d] obtain path n where
    r: "follow nodes ''C'' [''C''] = Some (Inr path)" "distinct path"
      "nodes (last path) = Some n" "best_neighbour n = None"
      "get_best_path nodes ''C'' = Some (Inr (joined (rev path)))"
    by blast
  from r(1) f have "path = [''C'', ''A'']" by simp
  with r(5) have "get_best_path nodes ''C'' = Some (Inr ''A-C'')" by simp
  with r c d detour_graph_ok(1,4,2) show ?thesis by blast
qed

section \<open>The reconstructed path and the accumulators\<close>

text \<open>
  C5, as the claim states it, fails where a sum wraps around. In \<open>wrap_graph\<close>, whose weights
  are strictly positive, \<open>get_best_path\<close> returns \<^verbatim>\<open>"A-B-C"\<close> for the destination \<open>C\<close>; the
  distances along \<open>A\<close>, \<open>B\<close>, \<open>C\<close> sum to \<open>2^63\<close>, and the distance accumulator of \<open>C\<close> is
  \<open>- 2^63\<close>.
\<close>

theorem round_trip_wrap_counterexample:
  "pos_weights wrap_graph \<and> distinct (map fst wrap_graph) \<and>
   ''A'' \<in> set (map fst wrap_graph) \<and> reachable wrap_graph ''A'' ''C'' \<and>
   (\<exists>nodes n. calculate_shortest_paths Distance wrap_graph ''A'' = Inr nodes \<and>
      get_best_path nodes ''C'' = Some (Inr ''A-B-C'') \<and>
      follow nodes ''C'' [''C''] = Some (Inr [''C'', ''B'', ''A'']) \<and>
      path_weight Distance wrap_graph [''A'', ''B'', ''C''] = 9223372036854775808 \<and>
      nodes ''C'' = Some n \<and> acc Distance n = Fin (- 9223372036854775808))"
proof -
  from wrap_graph_C obtain nodes where
    "calculate_shortest_paths Distance wrap_graph ''A'' = Inr nodes"
    "nodes ''C'' = Some \<lparr>cost = Fin (- 9223372036854775808),
       distance = Fin (- 9223372036854775808), best_neighbour = Some ''B''\<rparr>"
    "follow nodes ''C'' [''C''] = Some (Inr [''C'', ''B'', ''A''])"
    "get_best_path nodes ''C'' = Some (Inr ''A-B-C'')"
    by blast
  moreover have "path_weight Distance wrap_graph [''A'', ''B'', ''C''] = 9223372036854775808"
    by (simp add: wrap_graph_def edge_of_def)
  ultimately show ?thesis
    using wrap_graph_ok wrap_reachable_C by simp
qed

text \<open>
  C5, amended: on a graph with strictly positive weights, none above \<open>(2^63 - 1) div n\<close> for
  its \<open>n\<close> vertices (a dictionary: its keys are distinct), for a destination reachable from
  the start, \<open>get_best_path\<close> returns the labels, joined by \<^verbatim>\<open>"-"\<close>, of a path of the graph
  from the start to the destination (the walk along the predecessor links, reversed), and the
  sum of the primary edge weights along this path is the primary accumulator of the
  destination.
\<close>

theorem best_path_round_trip:
  assumes "pos_weights graph" and "sums_fit graph" and "distinct (map fst graph)"
    and "calculate_shortest_paths m graph starting_vertex = Inr nodes"
    and "reachable graph starting_vertex destination"
  shows "\<exists>path n. get_best_path nodes destination = Some (Inr (joined path)) \<and>
           follow nodes destination [destination] = Some (Inr (rev path)) \<and>
           is_path graph path \<and> hd path = starting_vertex \<and> last path = destination \<and>
           nodes destination = Some n \<and> acc m n = Fin (path_weight m graph path)"
proof -
  from calculate_invar[OF assms(4) pos_nonneg[OF assms(1)] assms(2,3)]
  have tr: "tree_inv graph starting_vertex [] nodes"
    and rl: "relaxed_inv m graph [] nodes" and st: "start_ok starting_vertex nodes"
    by (simp_all add: invar_def)
  from assms(5) obtain q where q: "is_path graph q" "hd q = starting_vertex" "last q = destination"
    unfolding reachable_def by blast
  from st have "nodes (hd q) = Some \<lparr>cost = Fin 0, distance = Fin 0, best_neighbour = None\<rparr>"
    "acc m \<lparr>cost = Fin 0, distance = Fin 0, best_neighbour = None\<rparr> = Fin 0"
    using q(2) by (cases m; simp add: start_ok_def)+
  from path_upper_bound[OF q(1) rl this] q(3) obtain n b where
    n: "nodes destination = Some n" "acc m n = Fin b" by auto
  from tree_path_finite[OF tr n] obtain p where p: "pred_path nodes destination p"
    "hd p = starting_vertex" "is_path graph p"
    "distance n = Fin (path_weight Distance graph p)" "cost n = Fin (path_weight Cost graph p)"
    by blast
  have "acc m n = Fin (path_weight m graph p)" using p(4,5) by (cases m) simp_all
  with follow_pred_path_start[OF p(1)] get_best_path_pred_path[OF p(1)] pred_path_last[OF p(1)]
    p(2,3) n(1)
  show ?thesis by auto
qed

theorem best_path_round_trip_witness:
  "pos_weights detour_graph \<and> sums_fit detour_graph \<and> distinct (map fst detour_graph) \<and>
   reachable detour_graph ''A'' ''C'' \<and>
   (\<exists>nodes n. calculate_shortest_paths Cost detour_graph ''A'' = Inr nodes \<and>
      get_best_path nodes ''C'' = Some (Inr ''A-C'') \<and>
      follow nodes ''C'' [''C''] = Some (Inr [''C'', ''A'']) \<and>
      is_path detour_graph [''A'', ''C''] \<and>
      nodes ''C'' = Some n \<and> acc Cost n = Fin (path_weight Cost detour_graph [''A'', ''C'']) \<and>
      acc Cost n = Fin 1)"
proof -
  from detour_graph_C obtain nodes where
    c: "calculate_shortest_paths Cost detour_graph ''A'' = Inr nodes"
    and d: "nodes ''C'' = Some \<lparr>cost = Fin 1, distance = Fin 5, best_neighbour = Some ''A''\<rparr>"
    and f: "follow nodes ''C'' [''C''] = Some (Inr [''C'', ''A''])"
    by blast
  from best_path_round_trip[OF detour_graph_ok(1,4,2) c detour_reachable_C] obtain path n where
    r: "get_best_path nodes ''C'' = Some (Inr (joined path))"
      "follow nodes ''C'' [''C''] = Some (Inr (rev path))"
      "is_path detour_graph path" "nodes ''C'' = Some n"
      "acc Cost n = Fin (path_weight Cost detour_graph path)"
    by blast
  from r(2) f have "rev path = [''C'', ''A'']" by simp
  then have path: "path = [''A'', ''C'']" by (simp add: rev_swap)
  from r(4) d have "acc Cost n = Fin 1" by auto
  with r path c f detour_graph_ok(1,4,2) detour_reachable_C show ?thesis by simp
qed

text \<open>
  C2, as the claim states it (for every run), fails where a sum of the secondary metric wraps
  around. In \<open>cost_wrap_graph\<close>, whose weights are strictly positive, with the distance as
  primary metric, the distance of \<open>C\<close> is finite (2), the predecessor links of \<open>C\<close> give the
  path \<open>A\<close>, \<open>B\<close>, \<open>C\<close>, whose costs sum to \<open>2^63\<close>, and the cost accumulator of \<open>C\<close> is
  \<open>- 2^63\<close>.
\<close>

theorem secondary_wrap_counterexample:
  "pos_weights cost_wrap_graph \<and> distinct (map fst cost_wrap_graph) \<and>
   (\<exists>nodes n. calculate_shortest_paths Distance cost_wrap_graph ''A'' = Inr nodes \<and>
     nodes ''C'' = Some n \<and> acc Distance n = Fin 2 \<and>
     follow nodes ''C'' [''C''] = Some (Inr [''C'', ''B'', ''A'']) \<and>
     path_weight Cost cost_wrap_graph (rev [''C'', ''B'', ''A'']) = 9223372036854775808 \<and>
     acc Cost n = Fin (- 9223372036854775808) \<and>
     acc Cost n \<noteq> Fin (path_weight Cost cost_wrap_graph (rev [''C'', ''B'', ''A''])))"
proof -
  have "(case calculate_shortest_paths Distance cost_wrap_graph ''A'' of
           Inl e \<Rightarrow> False
         | Inr nodes \<Rightarrow>
             nodes ''C'' = Some \<lparr>cost = Fin (- 9223372036854775808), distance = Fin 2,
               best_neighbour = Some ''B''\<rparr> \<and>
             follow nodes ''C'' [''C''] = Some (Inr [''C'', ''B'', ''A'']))"
    by code_simp
  then obtain nodes where "calculate_shortest_paths Distance cost_wrap_graph ''A'' = Inr nodes"
    "nodes ''C'' = Some \<lparr>cost = Fin (- 9223372036854775808), distance = Fin 2,
       best_neighbour = Some ''B''\<rparr>"
    "follow nodes ''C'' [''C''] = Some (Inr [''C'', ''B'', ''A''])"
    by (cases "calculate_shortest_paths Distance cost_wrap_graph ''A''") simp_all
  moreover have "path_weight Cost cost_wrap_graph (rev [''C'', ''B'', ''A'']) = 9223372036854775808"
    by (simp add: cost_wrap_graph_def edge_of_def)
  moreover have "pos_weights cost_wrap_graph" "distinct (map fst cost_wrap_graph)"
    by (simp_all add: cost_wrap_graph_def pos_weights_def)
  ultimately show ?thesis by simp
qed

text \<open>
  C2, amended: in every run on a graph whose weights are not negative and not above
  \<open>(2^63 - 1) div n\<close> for its \<open>n\<close> vertices (a dictionary: its keys are distinct), for every
  vertex whose primary accumulator is finite, following the predecessor links from the vertex
  leads back to the start, and the secondary accumulator is the sum of the secondary edge
  weights along that path (as the primary accumulator is the sum of the primary ones).
\<close>

theorem secondary_along_best_path:
  assumes "nonneg_graph graph" and "sums_fit graph" and "distinct (map fst graph)"
    and "calculate_shortest_paths m graph starting_vertex = Inr nodes"
    and "nodes v = Some n" and "acc m n = Fin x"
  shows "\<exists>path. follow nodes v [v] = Some (Inr path) \<and> is_path graph (rev path) \<and>
           hd (rev path) = starting_vertex \<and> last (rev path) = v \<and>
           acc (other m) n = Fin (path_weight (other m) graph (rev path)) \<and>
           acc m n = Fin (path_weight m graph (rev path))"
proof -
  from calculate_invar[OF assms(4) assms(1,2,3)]
  have tr: "tree_inv graph starting_vertex [] nodes"
    by (simp add: invar_def)
  from tree_path_finite[OF tr assms(5,6)] obtain p where p: "pred_path nodes v p"
    "hd p = starting_vertex" "is_path graph p"
    "distance n = Fin (path_weight Distance graph p)" "cost n = Fin (path_weight Cost graph p)"
    by blast
  have "acc m n = Fin (path_weight m graph p)"
    "acc (other m) n = Fin (path_weight (other m) graph p)"
    using p(4,5) by (cases m; simp)+
  with follow_pred_path_start[OF p(1)] pred_path_last[OF p(1)] p(2,3)
  show ?thesis by auto
qed

theorem secondary_along_best_path_witness:
  "nonneg_graph detour_graph \<and> sums_fit detour_graph \<and> distinct (map fst detour_graph) \<and>
   (\<exists>nodes n. calculate_shortest_paths Cost detour_graph ''A'' = Inr nodes \<and>
      nodes ''C'' = Some n \<and> acc Cost n = Fin 1 \<and>
      (\<exists>path. follow nodes ''C'' [''C''] = Some (Inr path) \<and> is_path detour_graph (rev path) \<and>
           hd (rev path) = ''A'' \<and> last (rev path) = ''C'' \<and>
           acc (other Cost) n = Fin (path_weight (other Cost) detour_graph (rev path)) \<and>
           acc Cost n = Fin (path_weight Cost detour_graph (rev path))))"
proof -
  from detour_graph_C obtain nodes where
    c: "calculate_shortest_paths Cost detour_graph ''A'' = Inr nodes"
    and d: "nodes ''C'' = Some \<lparr>cost = Fin 1, distance = Fin 5, best_neighbour = Some ''A''\<rparr>"
    by blast
  have a: "acc Cost \<lparr>cost = Fin 1, distance = Fin 5, best_neighbour = Some ''A''\<rparr> = Fin 1"
    by simp
  note nn = pos_nonneg[OF detour_graph_ok(1)]
  from secondary_along_best_path[OF nn detour_graph_ok(4,2) c d a] c d a nn detour_graph_ok(4,2)
  show ?thesis by blast
qed

section \<open>Optimality\<close>

lemma edge_of_label:
  "edge_of g u v = Some e \<Longrightarrow> v \<in> (\<Union>row \<in> snd ` set g. fst ` set row)"
  by (auto simp: edge_of_def split: option.splits dest!: map_of_SomeD intro!: bexI rev_image_eqI)

lemma is_path_labels:
  "is_path g p \<Longrightarrow> set (tl p) \<subseteq> (\<Union>row \<in> snd ` set g. fst ` set row)"
proof (induction g p rule: is_path.induct)
  case (3 g u v rest)
  then obtain e where "edge_of g u v = Some e" by auto
  from edge_of_label[OF this] 3 show ?case by auto
qed simp_all

lemma finite_simple_paths: "finite (simple_paths g s v)"
proof -
  let ?A = "insert s (\<Union>row \<in> snd ` set g. fst ` set row)"
  have "finite ?A" by simp
  then have "finite {p. set p \<subseteq> ?A \<and> distinct p}" by (rule finite_subset_distinct)
  moreover have "simple_paths g s v \<subseteq> {p. set p \<subseteq> ?A \<and> distinct p}"
  proof
    fix p assume "p \<in> simple_paths g s v"
    then have p: "is_path g p" "hd p = s" "distinct p" by (simp_all add: simple_paths_def)
    from p(1) have "p \<noteq> []" by (cases p) auto
    then have "set p = insert (hd p) (set (tl p))" by (cases p) auto
    with is_path_labels[OF p(1)] p(2) have "set p \<subseteq> ?A" by auto
    with p(3) show "p \<in> {p. set p \<subseteq> ?A \<and> distinct p}" by simp
  qed
  ultimately show ?thesis by (rule rev_finite_subset)
qed

text \<open>
  C1, as the claim states it, fails where a sum wraps around. In \<open>wrap_graph\<close>, whose weights
  are strictly positive, the only way from \<open>A\<close> to \<open>C\<close> has the distance \<open>2^63\<close>; the run by
  distance from \<open>A\<close> gives \<open>C\<close> the accumulator \<open>- 2^63\<close>, which is the sum of no path, since
  no path has a negative sum.
\<close>

theorem optimal_wrap_counterexample:
  "pos_weights wrap_graph \<and> distinct (map fst wrap_graph) \<and>
   ''A'' \<in> set (map fst wrap_graph) \<and> reachable wrap_graph ''A'' ''C'' \<and>
   [''A'', ''B'', ''C''] \<in> simple_paths wrap_graph ''A'' ''C'' \<and>
   path_weight Distance wrap_graph [''A'', ''B'', ''C''] = 9223372036854775808 \<and>
   0 \<le> Min (path_weight Distance wrap_graph ` simple_paths wrap_graph ''A'' ''C'') \<and>
   (\<exists>nodes n. calculate_shortest_paths Distance wrap_graph ''A'' = Inr nodes \<and>
      nodes ''C'' = Some n \<and> acc Distance n = Fin (- 9223372036854775808) \<and>
      acc Distance n \<noteq>
        Fin (Min (path_weight Distance wrap_graph ` simple_paths wrap_graph ''A'' ''C'')))"
proof -
  have sp: "[''A'', ''B'', ''C''] \<in> simple_paths wrap_graph ''A'' ''C''"
    by (simp add: simple_paths_def wrap_graph_def edge_of_def)
  have pw: "path_weight Distance wrap_graph [''A'', ''B'', ''C''] = 9223372036854775808"
    by (simp add: wrap_graph_def edge_of_def)
  let ?S = "path_weight Distance wrap_graph ` simple_paths wrap_graph ''A'' ''C''"
  have "finite ?S" "?S \<noteq> {}"
    using finite_simple_paths[of wrap_graph "''A''" "''C''"] sp by auto
  then have "Min ?S \<in> ?S" by (rule Min_in)
  then obtain q where "Min ?S = path_weight Distance wrap_graph q" by blast
  with path_weight_nonneg[OF nonneg_graphD[OF pos_nonneg[OF wrap_graph_ok(1)]], of Distance q]
  have mn: "0 \<le> Min ?S" by simp
  from wrap_graph_C obtain nodes where
    c: "calculate_shortest_paths Distance wrap_graph ''A'' = Inr nodes"
    and d: "nodes ''C'' = Some \<lparr>cost = Fin (- 9223372036854775808),
       distance = Fin (- 9223372036854775808), best_neighbour = Some ''B''\<rparr>"
    by blast
  from mn have "Fin (- 9223372036854775808) \<noteq> Fin (Min ?S)" by simp
  with c d sp pw mn wrap_graph_ok wrap_reachable_C show ?thesis by simp
qed

text \<open>
  C1, amended: on a graph with strictly positive distance and cost weights, none above
  \<open>(2^63 - 1) div n\<close> for its \<open>n\<close> vertices (a dictionary: its keys are distinct), and a start
  vertex that is a key, for either metric: whenever \<open>calculate_shortest_paths\<close> returns, the
  primary accumulator of every vertex reachable from the start is the minimum, over the
  simple paths from the start to the vertex, of the sum of the primary edge weights. It does
  return when every neighbour is a key of the graph.
\<close>

theorem shortest_path_optimal:
  assumes "pos_weights graph" and "sums_fit graph" and "distinct (map fst graph)"
    and "starting_vertex \<in> set (map fst graph)"
  shows "(closed_graph graph \<longrightarrow>
            (\<exists>nodes. calculate_shortest_paths m graph starting_vertex = Inr nodes)) \<and>
         (\<forall>nodes v. calculate_shortest_paths m graph starting_vertex = Inr nodes \<longrightarrow>
            reachable graph starting_vertex v \<longrightarrow>
            (\<exists>n. nodes v = Some n \<and>
               acc m n = Fin (Min (path_weight m graph ` simple_paths graph starting_vertex v))))"
proof (intro conjI allI impI)
  assume "closed_graph graph"
  with assms(4) show "\<exists>nodes. calculate_shortest_paths m graph starting_vertex = Inr nodes"
    by (simp add: calculate_total)
next
  fix nodes v
  assume calc: "calculate_shortest_paths m graph starting_vertex = Inr nodes"
    and reach: "reachable graph starting_vertex v"
  from calculate_invar[OF calc pos_nonneg[OF assms(1)] assms(2,3)]
  have tr: "tree_inv graph starting_vertex [] nodes"
    and rl: "relaxed_inv m graph [] nodes" and st: "start_ok starting_vertex nodes"
    by (simp_all add: invar_def)
  let ?n0 = "\<lparr>cost = Fin 0, distance = Fin 0, best_neighbour = None\<rparr>"
  have start: "nodes starting_vertex = Some ?n0" "acc m ?n0 = Fin 0"
    using st by (cases m; simp add: start_ok_def)+
  have bound: "\<exists>n b. nodes v = Some n \<and> acc m n = Fin b \<and> b \<le> path_weight m graph q"
    if "is_path graph q" "hd q = starting_vertex" "last q = v" for q
    using path_upper_bound[OF that(1) rl, of ?n0 0] start that(2,3) by auto
  from reach obtain q0 where "is_path graph q0" "hd q0 = starting_vertex" "last q0 = v"
    unfolding reachable_def by blast
  from bound[OF this] obtain n b where n: "nodes v = Some n" "acc m n = Fin b" by blast
  from tree_path_finite[OF tr n] obtain p where p: "pred_path nodes v p"
    "hd p = starting_vertex" "distinct p" "is_path graph p"
    "distance n = Fin (path_weight Distance graph p)" "cost n = Fin (path_weight Cost graph p)"
    by blast
  have b: "b = path_weight m graph p" using p(5,6) n(2) by (cases m) simp_all
  have "p \<in> simple_paths graph starting_vertex v"
    using p(2,3,4) pred_path_last[OF p(1)] by (simp add: simple_paths_def)
  then have mem: "b \<in> path_weight m graph ` simple_paths graph starting_vertex v"
    using b by blast
  have least: "b \<le> y" if "y \<in> path_weight m graph ` simple_paths graph starting_vertex v" for y
  proof -
    from that obtain q where q: "is_path graph q" "hd q = starting_vertex" "last q = v"
      and y: "y = path_weight m graph q"
      by (auto simp: simple_paths_def)
    from bound[OF q] n y show ?thesis by simp
  qed
  have "Min (path_weight m graph ` simple_paths graph starting_vertex v) = b"
    by (rule Min_eqI) (simp_all add: finite_simple_paths least mem)
  with n show "\<exists>n. nodes v = Some n \<and>
      acc m n = Fin (Min (path_weight m graph ` simple_paths graph starting_vertex v))"
    by simp
qed

theorem shortest_path_optimal_witness:
  "pos_weights detour_graph \<and> sums_fit detour_graph \<and> distinct (map fst detour_graph) \<and>
   ''A'' \<in> set (map fst detour_graph) \<and> closed_graph detour_graph \<and>
   reachable detour_graph ''A'' ''C'' \<and>
   (\<exists>nodes n. calculate_shortest_paths Cost detour_graph ''A'' = Inr nodes \<and>
      nodes ''C'' = Some n \<and> acc Cost n = Fin 1 \<and>
      Min (path_weight Cost detour_graph ` simple_paths detour_graph ''A'' ''C'') = 1)"
proof -
  note opt = shortest_path_optimal[OF detour_graph_ok(1,4,2,5), of Cost]
  from opt detour_graph_ok(3) obtain nodes where
    c: "calculate_shortest_paths Cost detour_graph ''A'' = Inr nodes" by blast
  from detour_graph_C c have
    d: "nodes ''C'' = Some \<lparr>cost = Fin 1, distance = Fin 5, best_neighbour = Some ''A''\<rparr>"
    by simp
  from opt c detour_reachable_C obtain n where "nodes ''C'' = Some n"
    "acc Cost n = Fin (Min (path_weight Cost detour_graph ` simple_paths detour_graph ''A'' ''C''))"
    by blast
  with d have "Min (path_weight Cost detour_graph ` simple_paths detour_graph ''A'' ''C'') = 1"
    by simp
  with c d detour_graph_ok detour_reachable_C show ?thesis by simp
qed

subsection \<open>Later iterations; the conversion to int\<close>

lemma loop_iter_keep:
  assumes nn: "nonneg_graph g" and fit: "sums_fit g"
  shows "loop_iter j m g st1 = Inr st2 \<Longrightarrow> invar m g s (fst st1) (snd st1) \<Longrightarrow>
           v \<notin> set (fst st1) \<Longrightarrow> snd st2 v = snd st1 v"
proof (induction j arbitrary: st1)
  case 0
  then show ?case by simp
next
  case (Suc j)
  show ?case
  proof (cases "fst st1 = []")
    case True
    with Suc.prems(1) show ?thesis by simp
  next
    case False
    with Suc.prems(1) obtain st' where lb: "loop_body m g st1 = Inr st'"
      and it: "loop_iter j m g st' = Inr st2"
      by (auto split: sum.splits)
    from invar_step_all[OF Suc.prems(2) nn fit, of "fst st'" "snd st'"] lb
    have inv': "invar m g s (fst st') (snd st')"
      and keep: "\<forall>v. v \<notin> set (fst st') \<longrightarrow> snd st' v = snd st1 v"
      and sub: "set (fst st') \<subseteq> set (fst st1)"
      by simp_all
    from sub Suc.prems(3) have v: "v \<notin> set (fst st')" by blast
    from Suc.IH[OF it inv' v] keep v show ?thesis by simp
  qed
qed

lemma alternate_not_int_overflow:
  "alternate m g u N v \<noteq> Inl (OverflowError ''cannot convert float infinity to integer'')"
  by (auto simp: alternate_def split: option.splits)

lemma fires_finite:
  assumes "both_fin N" and "alternate Distance g u N v = Inr ad"
    and "alternate Cost g u N v = Inr ac" and "improves m n ad ac"
  shows "\<exists>d c. ad = Fin d \<and> ac = Fin c"
proof -
  from alternate_Inr[OF assms(2)] obtain e nu where e: "edge_of g u v = Some e"
    and nu: "N u = Some nu" and ad: "ad = py_add (edge_distance e) (distance nu)"
    by auto
  from alternate_Inr[OF assms(3)] e nu have ac: "ac = py_add (edge_cost e) (cost nu)"
    by auto
  from improves_finite[OF assms(4)[unfolded ad ac] both_finD[OF assms(1) nu]] ad ac
  show ?thesis by simp
qed

lemma relax_not_int_overflow:
  assumes "both_fin N"
  shows "relax m g u N v \<noteq> Inl (OverflowError ''cannot convert float infinity to integer'')"
proof (cases "alternate Distance g u N v")
  case (Inl err)
  with alternate_not_int_overflow[of Distance g u N v] show ?thesis
    by (simp add: relax_def)
next
  case ad: (Inr ad)
  show ?thesis
  proof (cases "alternate Cost g u N v")
    case (Inl err)
    with ad alternate_not_int_overflow[of Cost g u N v] show ?thesis
      by (simp add: relax_def)
  next
    case ac: (Inr ac)
    show ?thesis
    proof (cases "N v")
      case None
      with ad ac show ?thesis by (simp add: relax_def)
    next
      case (Some n)
      show ?thesis
      proof (cases "improves m n ad ac")
        case True
        from fires_finite[OF assms ad ac True] obtain d c where "ad = Fin d" "ac = Fin c"
          by blast
        with ad ac Some True show ?thesis by (simp add: relax_def)
      next
        case False
        with ad ac Some show ?thesis by (simp add: relax_def)
      qed
    qed
  qed
qed

lemma relax_all_not_int_overflow:
  "both_fin N \<Longrightarrow>
     relax_all m g u nbs N \<noteq> Inl (OverflowError ''cannot convert float infinity to integer'')"
proof (induction nbs arbitrary: N)
  case Nil
  then show ?case by simp
next
  case (Cons v nbs)
  show ?case
  proof (cases "relax m g u N v")
    case (Inl err)
    with relax_not_int_overflow[OF Cons.prems, of m g u v] show ?thesis by simp
  next
    case (Inr N1)
    from relax_both_fin[OF Inr Cons.prems] have "both_fin N1" .
    from Cons.IH[OF this] Inr show ?thesis by simp
  qed
qed

lemma select_nearest_not_overflow: "select_nearest m N U \<noteq> Inl (OverflowError msg)"
proof -
  have "find_nearest m N us v x \<noteq> Inl (OverflowError msg)" for us v x
    by (induction us arbitrary: v x) (auto split: option.splits)
  then show ?thesis
    by (auto simp: select_nearest_def split: list.splits option.splits)
qed

lemma loop_body_not_int_overflow:
  assumes "both_fin (snd st)"
  shows "loop_body m g st \<noteq> Inl (OverflowError ''cannot convert float infinity to integer'')"
  using select_nearest_not_overflow[of m "snd st" "fst st"]
    relax_all_not_int_overflow[OF assms, of m g]
  by (auto simp: loop_body_def recalculate_neighbour_position_def split: sum.splits option.splits)

lemma main_loop_not_int_overflow:
  "both_fin (snd st) \<Longrightarrow>
     main_loop m g st \<noteq> Inl (OverflowError ''cannot convert float infinity to integer'')"
proof (induction m g st rule: main_loop.induct)
  case (1 m g U N)
  show ?case
  proof (cases "U = []")
    case True
    then show ?thesis by simp
  next
    case False
    show ?thesis
    proof (cases "loop_body m g (U, N)")
      case (Inl err)
      with loop_body_not_int_overflow[OF "1.prems", of m g] False show ?thesis by simp
    next
      case (Inr st')
      have "both_fin (snd st')"
      proof (rule loop_body_preserves[of m g both_fin, OF _ Inr])
        show "both_fin (snd (U, N))" by (rule "1.prems")
      qed (rule relax_both_fin)
      from "1.IH"[OF False Inr this] False Inr show ?thesis by simp
    qed
  qed
qed

lemma case_sum_InrD: "(case x of Inl e \<Rightarrow> False | Inr y \<Rightarrow> P y) \<Longrightarrow> \<exists>y. x = Inr y \<and> P y"
  by (cases x) simp_all

lemma case_option_SomeD: "(case x of None \<Rightarrow> False | Some y \<Rightarrow> P y) \<Longrightarrow> \<exists>y. x = Some y \<and> P y"
  by (cases x) simp_all

section \<open>Finalized vertices\<close>

text \<open>
  C6, as the claim states it, fails where a sum wraps around. In \<open>cycle_graph\<close>, whose
  weights are strictly positive, the first iteration of the run from \<open>A\<close> by distance removes
  \<open>A\<close>, with the distance 0, from the unvisited list. Two iterations later the sum for \<open>A\<close>
  over the edge from \<open>C\<close> is \<open>1 - 2^63\<close>, and the distance of \<open>A\<close> is overwritten with it; this
  is the state that \<open>calculate_shortest_paths\<close> returns.
\<close>

theorem finalized_changes_counterexample:
  "nonneg_graph cycle_graph \<and> distinct (map fst cycle_graph) \<and>
   ''A'' \<in> set (map fst cycle_graph) \<and>
   (\<exists>st0 st1 st2. initial_state cycle_graph ''A'' = Inr st0 \<and>
      loop_iter 0 Distance cycle_graph st0 = Inr st0 \<and>
      loop_body Distance cycle_graph st0 = Inr st1 \<and> ''A'' \<notin> set (fst st1) \<and>
      snd st0 ''A'' = Some \<lparr>cost = Fin 0, distance = Fin 0, best_neighbour = None\<rparr> \<and>
      snd st1 ''A'' = Some \<lparr>cost = Fin 0, distance = Fin 0, best_neighbour = None\<rparr> \<and>
      loop_iter 2 Distance cycle_graph st1 = Inr st2 \<and>
      snd st2 ''A'' = Some \<lparr>cost = Fin (- 9223372036854775807),
        distance = Fin (- 9223372036854775807), best_neighbour = Some ''C''\<rparr> \<and>
      snd st2 ''A'' \<noteq> snd st0 ''A'' \<and>
      calculate_shortest_paths Distance cycle_graph ''A'' = Inr (snd st2))"
proof -
  have "(case initial_state cycle_graph ''A'' of Inl e \<Rightarrow> False
         | Inr st0 \<Rightarrow>
             snd st0 ''A'' = Some \<lparr>cost = Fin 0, distance = Fin 0, best_neighbour = None\<rparr> \<and>
             (case loop_body Distance cycle_graph st0 of Inl e \<Rightarrow> False
              | Inr st1 \<Rightarrow> ''A'' \<notin> set (fst st1) \<and>
                  snd st1 ''A'' = Some \<lparr>cost = Fin 0, distance = Fin 0, best_neighbour = None\<rparr> \<and>
                  (case loop_iter 2 Distance cycle_graph st1 of Inl e \<Rightarrow> False
                   | Inr st2 \<Rightarrow> fst st2 = [] \<and>
                       snd st2 ''A'' = Some \<lparr>cost = Fin (- 9223372036854775807),
                         distance = Fin (- 9223372036854775807), best_neighbour = Some ''C''\<rparr>)))"
    by code_simp
  from case_sum_InrD[OF this] obtain st0 where r0: "initial_state cycle_graph ''A'' = Inr st0"
    and a0: "snd st0 ''A'' = Some \<lparr>cost = Fin 0, distance = Fin 0, best_neighbour = None\<rparr>"
    and e1: "(case loop_body Distance cycle_graph st0 of Inl e \<Rightarrow> False
              | Inr st1 \<Rightarrow> ''A'' \<notin> set (fst st1) \<and>
                  snd st1 ''A'' = Some \<lparr>cost = Fin 0, distance = Fin 0, best_neighbour = None\<rparr> \<and>
                  (case loop_iter 2 Distance cycle_graph st1 of Inl e \<Rightarrow> False
                   | Inr st2 \<Rightarrow> fst st2 = [] \<and>
                       snd st2 ''A'' = Some \<lparr>cost = Fin (- 9223372036854775807),
                         distance = Fin (- 9223372036854775807), best_neighbour = Some ''C''\<rparr>))"
    by blast
  from case_sum_InrD[OF e1] obtain st1 where r1: "loop_body Distance cycle_graph st0 = Inr st1"
    and a1: "''A'' \<notin> set (fst st1)"
      "snd st1 ''A'' = Some \<lparr>cost = Fin 0, distance = Fin 0, best_neighbour = None\<rparr>"
    and e2: "(case loop_iter 2 Distance cycle_graph st1 of Inl e \<Rightarrow> False
                   | Inr st2 \<Rightarrow> fst st2 = [] \<and>
                       snd st2 ''A'' = Some \<lparr>cost = Fin (- 9223372036854775807),
                         distance = Fin (- 9223372036854775807), best_neighbour = Some ''C''\<rparr>)"
    by blast
  from case_sum_InrD[OF e2] obtain st2 where r2: "loop_iter 2 Distance cycle_graph st1 = Inr st2"
    and e: "fst st2 = []"
    and a2: "snd st2 ''A'' = Some \<lparr>cost = Fin (- 9223372036854775807),
                         distance = Fin (- 9223372036854775807), best_neighbour = Some ''C''\<rparr>"
    by blast
  from loop_body_unvisited[OF r1] have ne: "fst st0 \<noteq> []" by auto
  obtain U0 N0 where st0: "st0 = (U0, N0)" by (cases st0)
  from main_loop_after_iter[OF r2] e have "main_loop Distance cycle_graph st1 = Inr (snd st2)"
    by (cases st2) simp
  with r1 ne st0 have "main_loop Distance cycle_graph st0 = Inr (snd st2)" by simp
  with r0 have c: "calculate_shortest_paths Distance cycle_graph ''A'' = Inr (snd st2)"
    by (simp add: calculate_shortest_paths_def)
  have "nonneg_graph cycle_graph" by (rule pos_nonneg[OF cycle_graph_ok(1)])
  moreover have "loop_iter 0 Distance cycle_graph st0 = Inr st0" by simp
  moreover have "snd st2 ''A'' \<noteq> snd st0 ''A''" using a0 a2 by simp
  ultimately show ?thesis
    using r0 r1 r2 a0 a1 a2 c cycle_graph_ok(2,4) by blast
qed

text \<open>
  C6, amended: on a graph whose weights are not negative and not above \<open>(2^63 - 1) div n\<close>
  for its \<open>n\<close> vertices (a dictionary: its keys are distinct), take any iteration of the
  \<^verbatim>\<open>while\<close> loop of a run, from the state \<open>st\<close> at the loop head to the state \<open>st1\<close> after
  it, and any vertex \<open>v\<close> that is no longer in the unvisited list after it. Then at every
  later loop head, and in the mapping that \<open>calculate_shortest_paths\<close> returns, the state of
  \<open>v\<close> (its primary accumulator in particular) is what it was in \<open>st\<close>: neither the relaxation
  of the iteration that removes \<open>v\<close> nor any later iteration changes it.
\<close>

theorem finalized_never_changes:
  assumes "nonneg_graph graph" and "sums_fit graph" and "distinct (map fst graph)"
    and "initial_state graph starting_vertex = Inr st0"
    and "loop_iter i m graph st0 = Inr st"
    and "loop_body m graph st = Inr st1"
    and "v \<notin> set (fst st1)"
  shows "(\<forall>j st2. loop_iter j m graph st1 = Inr st2 \<longrightarrow> snd st2 v = snd st v) \<and>
         (\<forall>nodes. calculate_shortest_paths m graph starting_vertex = Inr nodes \<longrightarrow>
            nodes v = snd st v)"
proof -
  obtain U0 N0 where st0: "st0 = (U0, N0)" by (cases st0)
  obtain U N where st: "st = (U, N)" by (cases st)
  from initial_invar[OF assms(4)[unfolded st0] assms(3)] have "invar m graph starting_vertex U0 N0" .
  from loop_iter_invar[OF assms(1,2) assms(5)[unfolded st0 st] this]
  have inv: "invar m graph starting_vertex U N" .
  from invar_step_all[OF inv assms(1,2), of "fst st1" "snd st1"] assms(6) st
  have inv1: "invar m graph starting_vertex (fst st1) (snd st1)"
    and keep1: "\<forall>v. v \<notin> set (fst st1) \<longrightarrow> snd st1 v = N v"
    by simp_all
  have later: "snd st2 v = snd st v" if "loop_iter j m graph st1 = Inr st2" for j st2
    using loop_iter_keep[OF assms(1,2) that inv1 assms(7)] keep1 assms(7) st by simp
  have "nodes v = snd st v" if calc: "calculate_shortest_paths m graph starting_vertex = Inr nodes"
    for nodes
  proof -
    from calc assms(4) have "main_loop m graph st0 = Inr nodes"
      by (simp add: calculate_shortest_paths_def)
    with main_loop_after_iter[OF assms(5)] have ml: "main_loop m graph st = Inr nodes" by simp
    from loop_body_unvisited[OF assms(6)] have "fst st \<noteq> []" by auto
    with ml assms(6) st have "main_loop m graph st1 = Inr nodes" by simp
    from main_loop_iter[OF this] obtain k where "loop_iter k m graph st1 = Inr ([], nodes)"
      by blast
    from later[OF this] show ?thesis by simp
  qed
  with later show ?thesis by blast
qed

theorem finalized_never_changes_witness:
  "nonneg_graph detour_graph \<and> sums_fit detour_graph \<and> distinct (map fst detour_graph) \<and>
   (\<exists>st0 st st1 nodes. initial_state detour_graph ''A'' = Inr st0 \<and>
      loop_iter 1 Distance detour_graph st0 = Inr st \<and>
      loop_body Distance detour_graph st = Inr st1 \<and> ''B'' \<notin> set (fst st1) \<and>
      snd st ''B'' = Some \<lparr>cost = Fin 10, distance = Fin 1, best_neighbour = Some ''A''\<rparr> \<and>
      calculate_shortest_paths Distance detour_graph ''A'' = Inr nodes \<and>
      nodes ''B'' = snd st ''B'')"
proof -
  have "(case initial_state detour_graph ''A'' of Inl e \<Rightarrow> False
         | Inr st0 \<Rightarrow>
             (case loop_iter 1 Distance detour_graph st0 of Inl e \<Rightarrow> False
              | Inr st \<Rightarrow>
                  (case loop_body Distance detour_graph st of Inl e \<Rightarrow> False
                   | Inr st1 \<Rightarrow> ''B'' \<notin> set (fst st1) \<and>
                       snd st ''B'' =
                         Some \<lparr>cost = Fin 10, distance = Fin 1, best_neighbour = Some ''A''\<rparr>)))"
    by code_simp
  from case_sum_InrD[OF this] obtain st0 where r0: "initial_state detour_graph ''A'' = Inr st0"
    and e1: "(case loop_iter 1 Distance detour_graph st0 of Inl e \<Rightarrow> False
              | Inr st \<Rightarrow>
                  (case loop_body Distance detour_graph st of Inl e \<Rightarrow> False
                   | Inr st1 \<Rightarrow> ''B'' \<notin> set (fst st1) \<and>
                       snd st ''B'' =
                         Some \<lparr>cost = Fin 10, distance = Fin 1, best_neighbour = Some ''A''\<rparr>))"
    by blast
  from case_sum_InrD[OF e1] obtain st where r1: "loop_iter 1 Distance detour_graph st0 = Inr st"
    and e2: "(case loop_body Distance detour_graph st of Inl e \<Rightarrow> False
                   | Inr st1 \<Rightarrow> ''B'' \<notin> set (fst st1) \<and>
                       snd st ''B'' =
                         Some \<lparr>cost = Fin 10, distance = Fin 1, best_neighbour = Some ''A''\<rparr>)"
    by blast
  from case_sum_InrD[OF e2] obtain st1 where r2: "loop_body Distance detour_graph st = Inr st1"
    and r3: "''B'' \<notin> set (fst st1)"
    and b: "snd st ''B'' = Some \<lparr>cost = Fin 10, distance = Fin 1, best_neighbour = Some ''A''\<rparr>"
    by blast
  note run = r0 r1 r2 r3
  from calculate_total[OF detour_graph_ok(3,5), of Distance] obtain nodes where
    c: "calculate_shortest_paths Distance detour_graph ''A'' = Inr nodes" by blast
  note nn = pos_nonneg[OF detour_graph_ok(1)]
  from finalized_never_changes[OF nn detour_graph_ok(4,2) run] c
  have "nodes ''B'' = snd st ''B''" by blast
  with nn detour_graph_ok(4,2) run b c show ?thesis by blast
qed

section \<open>Finite accumulators\<close>

text \<open>
  C9: in a run of \<open>calculate_shortest_paths\<close> on any graph (the sign of the weights plays no
  part), at every head of the \<^verbatim>\<open>while\<close> loop and after every pass of the \<^verbatim>\<open>for\<close> loop of
  \<open>recalculate_neighbour_position\<close>, the distance accumulator of a node is infinite exactly
  when its cost accumulator is. At these points, whenever the condition of the relaxation
  holds for a neighbour, both candidate values are finite. So the run never ends in the
  \<^verbatim>\<open>OverflowError\<close> of \<^verbatim>\<open>int(inf)\<close>.
\<close>

theorem accumulators_finite_together:
  assumes "initial_state graph starting_vertex = Inr st0"
    and "loop_iter k m graph st0 = Inr st"
  shows "both_fin (snd st) \<and>
         (\<forall>current_node row j nodes'.
            select_nearest m (snd st) (fst st) = Inr current_node \<longrightarrow>
            map_of graph current_node = Some row \<longrightarrow>
            relax_all m graph current_node (take j (map fst row)) (snd st) = Inr nodes' \<longrightarrow>
            both_fin nodes' \<and>
            (\<forall>neighbour_node alternate_distance alternate_cost n.
               alternate Distance graph current_node nodes' neighbour_node = Inr alternate_distance \<longrightarrow>
               alternate Cost graph current_node nodes' neighbour_node = Inr alternate_cost \<longrightarrow>
               nodes' neighbour_node = Some n \<longrightarrow>
               improves m n alternate_distance alternate_cost \<longrightarrow>
               (\<exists>d c. alternate_distance = Fin d \<and> alternate_cost = Fin c))) \<and>
         calculate_shortest_paths m graph starting_vertex \<noteq>
           Inl (OverflowError ''cannot convert float infinity to integer'')"
proof -
  obtain U0 N0 where st0: "st0 = (U0, N0)" by (cases st0)
  from initial_both_fin[OF assms(1)[unfolded st0]] initial_untouched[OF assms(1)[unfolded st0]]
  have bf0: "both_fin (snd st0)" and "untouched starting_vertex (snd st0)"
    by (simp_all add: st0)
  from loop_iter_inv0[OF assms(2) this] have bf: "both_fin (snd st)" by simp
  have mid: "both_fin nodes'"
    if "relax_all m graph current_node nbs (snd st) = Inr nodes'" for current_node nbs nodes'
  proof (rule relax_all_preserves[of m graph current_node both_fin, OF _ that])
    show "both_fin (snd st)" by (rule bf)
  qed (rule relax_both_fin)
  have "calculate_shortest_paths m graph starting_vertex \<noteq>
           Inl (OverflowError ''cannot convert float infinity to integer'')"
    using main_loop_not_int_overflow[OF bf0, of m graph] assms(1)
    by (simp add: calculate_shortest_paths_def)
  with bf mid fires_finite show ?thesis by blast
qed

theorem accumulators_finite_together_witness:
  "\<exists>st0 st row nodes' n.
     initial_state detour_graph ''A'' = Inr st0 \<and>
     loop_iter 1 Distance detour_graph st0 = Inr st \<and> both_fin (snd st) \<and>
     select_nearest Distance (snd st) (fst st) = Inr ''B'' \<and>
     map_of detour_graph ''B'' = Some row \<and>
     relax_all Distance detour_graph ''B'' (take 1 (map fst row)) (snd st) = Inr nodes' \<and>
     both_fin nodes' \<and>
     alternate Distance detour_graph ''B'' nodes' ''C'' = Inr (Fin 2) \<and>
     alternate Cost detour_graph ''B'' nodes' ''C'' = Inr (Fin 20) \<and>
     nodes' ''C'' = Some n \<and> improves Distance n (Fin 2) (Fin 20) \<and>
     (\<exists>d c. Fin 2 = Fin d \<and> Fin 20 = Fin c) \<and>
     calculate_shortest_paths Distance detour_graph ''A'' \<noteq>
       Inl (OverflowError ''cannot convert float infinity to integer'')"
proof -
  have "(case initial_state detour_graph ''A'' of Inl e \<Rightarrow> False
         | Inr st0 \<Rightarrow>
             (case loop_iter 1 Distance detour_graph st0 of Inl e \<Rightarrow> False
              | Inr st \<Rightarrow>
                  select_nearest Distance (snd st) (fst st) = Inr ''B'' \<and>
                  (case map_of detour_graph ''B'' of None \<Rightarrow> False
                   | Some row \<Rightarrow>
                       (case relax_all Distance detour_graph ''B'' (take 1 (map fst row)) (snd st) of
                          Inl e \<Rightarrow> False
                        | Inr nodes' \<Rightarrow>
                            alternate Distance detour_graph ''B'' nodes' ''C'' = Inr (Fin 2) \<and>
                            alternate Cost detour_graph ''B'' nodes' ''C'' = Inr (Fin 20) \<and>
                            (case nodes' ''C'' of None \<Rightarrow> False
                             | Some n \<Rightarrow> improves Distance n (Fin 2) (Fin 20))))))"
    by code_simp
  from case_sum_InrD[OF this] obtain st0 where r0: "initial_state detour_graph ''A'' = Inr st0"
    and e1: "(case loop_iter 1 Distance detour_graph st0 of Inl e \<Rightarrow> False
              | Inr st \<Rightarrow>
                  select_nearest Distance (snd st) (fst st) = Inr ''B'' \<and>
                  (case map_of detour_graph ''B'' of None \<Rightarrow> False
                   | Some row \<Rightarrow>
                       (case relax_all Distance detour_graph ''B'' (take 1 (map fst row)) (snd st) of
                          Inl e \<Rightarrow> False
                        | Inr nodes' \<Rightarrow>
                            alternate Distance detour_graph ''B'' nodes' ''C'' = Inr (Fin 2) \<and>
                            alternate Cost detour_graph ''B'' nodes' ''C'' = Inr (Fin 20) \<and>
                            (case nodes' ''C'' of None \<Rightarrow> False
                             | Some n \<Rightarrow> improves Distance n (Fin 2) (Fin 20)))))"
    by blast
  from case_sum_InrD[OF e1] obtain st where r1: "loop_iter 1 Distance detour_graph st0 = Inr st"
    and p1: "select_nearest Distance (snd st) (fst st) = Inr ''B''"
    and e2: "(case map_of detour_graph ''B'' of None \<Rightarrow> False
                   | Some row \<Rightarrow>
                       (case relax_all Distance detour_graph ''B'' (take 1 (map fst row)) (snd st) of
                          Inl e \<Rightarrow> False
                        | Inr nodes' \<Rightarrow>
                            alternate Distance detour_graph ''B'' nodes' ''C'' = Inr (Fin 2) \<and>
                            alternate Cost detour_graph ''B'' nodes' ''C'' = Inr (Fin 20) \<and>
                            (case nodes' ''C'' of None \<Rightarrow> False
                             | Some n \<Rightarrow> improves Distance n (Fin 2) (Fin 20))))"
    by blast
  from case_option_SomeD[OF e2] obtain row where p2: "map_of detour_graph ''B'' = Some row"
    and e3: "(case relax_all Distance detour_graph ''B'' (take 1 (map fst row)) (snd st) of
                          Inl e \<Rightarrow> False
                        | Inr nodes' \<Rightarrow>
                            alternate Distance detour_graph ''B'' nodes' ''C'' = Inr (Fin 2) \<and>
                            alternate Cost detour_graph ''B'' nodes' ''C'' = Inr (Fin 20) \<and>
                            (case nodes' ''C'' of None \<Rightarrow> False
                             | Some n \<Rightarrow> improves Distance n (Fin 2) (Fin 20)))"
    by blast
  from case_sum_InrD[OF e3] obtain nodes' where
    p3: "relax_all Distance detour_graph ''B'' (take 1 (map fst row)) (snd st) = Inr nodes'"
    and f1: "alternate Distance detour_graph ''B'' nodes' ''C'' = Inr (Fin 2)"
    and f2: "alternate Cost detour_graph ''B'' nodes' ''C'' = Inr (Fin 20)"
    and e4: "(case nodes' ''C'' of None \<Rightarrow> False
                             | Some n \<Rightarrow> improves Distance n (Fin 2) (Fin 20))"
    by blast
  from case_option_SomeD[OF e4] obtain n where f3: "nodes' ''C'' = Some n"
    and f4: "improves Distance n (Fin 2) (Fin 20)"
    by blast
  note run = r0 r1 and pt = p1 p2 p3 and fire = f1 f2 f3 f4
  note fin = accumulators_finite_together[OF run]
  from fin have "both_fin (snd st)" by blast
  moreover from fin pt have "both_fin nodes'" by blast
  moreover from fin have "calculate_shortest_paths Distance detour_graph ''A'' \<noteq>
       Inl (OverflowError ''cannot convert float infinity to integer'')" by blast
  ultimately show ?thesis using run pt fire by blast
qed

section \<open>The graph builder\<close>

lemma process_cells_other:
  "process_cells items row = Inr row' \<Longrightarrow> k \<notin> fst ` set items \<Longrightarrow>
     map_of row' k = map_of row k"
proof (induction items row rule: process_cells.induct)
  case (1 row)
  then show ?case by simp
next
  case (2 ending_point cv rest row)
  from "2.prems"(2) have ne: "k \<noteq> ending_point" and k: "k \<notin> fst ` set rest" by auto
  from "2.prems"(1) obtain numbers where nums: "extract_numbers cv = Inr numbers"
    by (auto split: sum.splits)
  show ?case
  proof (cases "0 \<in> set numbers")
    case True
    with "2.prems"(1) nums have "process_cells rest (AList.delete ending_point row) = Inr row'"
      by (auto split: option.splits)
    from "2.IH"(1)[OF nums True _ this k] "2.prems"(1) nums True ne show ?thesis
      by (auto split: option.splits simp: delete_conv')
  next
    case False
    with "2.prems"(1) nums obtain n0 n1 ns where numbers: "numbers = n0 # n1 # ns"
      by (auto split: list.splits)
    with "2.prems"(1) nums False have "process_cells rest
        (AList.update ending_point
           (Weights \<lparr>edge_distance = n0, edge_cost = int64_mult n0 n1\<rparr>) row) = Inr row'"
      by simp
    from "2.IH"(2)[OF nums False numbers refl this k] ne show ?thesis
      by (simp add: update_conv')
  qed
qed

lemma process_cells_zero:
  "process_cells items row = Inr row' \<Longrightarrow> distinct (map fst items) \<Longrightarrow>
     (k, v) \<in> set items \<Longrightarrow> extract_numbers v = Inr zs \<Longrightarrow> 0 \<in> set zs \<Longrightarrow>
     map_of row' k = None"
proof (induction items row rule: process_cells.induct)
  case (1 row)
  then show ?case by simp
next
  case (2 ending_point cv rest row)
  from "2.prems"(2) have fresh: "ending_point \<notin> fst ` set rest" and dist: "distinct (map fst rest)"
    by auto
  from "2.prems"(1) obtain numbers where nums: "extract_numbers cv = Inr numbers"
    by (auto split: sum.splits)
  show ?case
  proof (cases "0 \<in> set numbers")
    case True
    with "2.prems"(1) nums have rest: "process_cells rest (AList.delete ending_point row) = Inr row'"
      by (auto split: option.splits)
    show ?thesis
    proof (cases "(k, v) = (ending_point, cv)")
      case True
      with process_cells_other[OF rest fresh] show ?thesis
        by (simp add: delete_conv')
    next
      case False
      with "2.prems"(3) have "(k, v) \<in> set rest" by auto
      from "2.IH"(1)[OF nums True _ rest dist this "2.prems"(4,5)] "2.prems"(1) nums True
      show ?thesis by (auto split: option.splits)
    qed
  next
    case False
    with "2.prems"(1) nums obtain n0 n1 ns where numbers: "numbers = n0 # n1 # ns"
      by (auto split: list.splits)
    with "2.prems"(1) nums False have rest: "process_cells rest
        (AList.update ending_point
           (Weights \<lparr>edge_distance = n0, edge_cost = int64_mult n0 n1\<rparr>) row) = Inr row'"
      by simp
    from False nums "2.prems"(4,5) have "(k, v) \<noteq> (ending_point, cv)" by auto
    with "2.prems"(3) have "(k, v) \<in> set rest" by auto
    from "2.IH"(2)[OF nums False numbers refl rest dist this "2.prems"(4,5)] show ?thesis .
  qed
qed

lemma process_cells_text:
  "process_cells items row = Inr row' \<Longrightarrow> map_of row' k = Some (Text s) \<Longrightarrow>
     map_of row k = Some (Text s)"
proof (induction items row rule: process_cells.induct)
  case (1 row)
  then show ?case by simp
next
  case (2 ending_point cv rest row)
  from "2.prems"(1) obtain numbers where nums: "extract_numbers cv = Inr numbers"
    by (auto split: sum.splits)
  show ?case
  proof (cases "0 \<in> set numbers")
    case True
    with "2.prems"(1) nums have rest: "process_cells rest (AList.delete ending_point row) = Inr row'"
      by (auto split: option.splits)
    from "2.IH"(1)[OF nums True _ rest "2.prems"(2)] "2.prems"(1) nums True
    have "map_of (AList.delete ending_point row) k = Some (Text s)"
      by (auto split: option.splits)
    then show ?thesis by (simp add: delete_conv' split: if_splits)
  next
    case False
    with "2.prems"(1) nums obtain n0 n1 ns where numbers: "numbers = n0 # n1 # ns"
      by (auto split: list.splits)
    with "2.prems"(1) nums False have rest: "process_cells rest
        (AList.update ending_point
           (Weights \<lparr>edge_distance = n0, edge_cost = int64_mult n0 n1\<rparr>) row) = Inr row'"
      by simp
    from "2.IH"(2)[OF nums False numbers refl rest "2.prems"(2)] show ?thesis
      by (simp add: update_conv' split: if_splits)
  qed
qed

lemma process_row_point:
  assumes "process_row csv_row = Inr (starting_point, row)"
  shows "map_of csv_row ''POINT'' = Some starting_point"
proof -
  from assms obtain row' where
    cells: "process_cells (drop 1 csv_row) (map (\<lambda>(column, values). (column, Text values)) csv_row)
      = Inr row'"
    and pt: "map_of row' ''POINT'' = Some (Text starting_point)"
    by (auto simp: process_row_def split: sum.splits option.splits cell.splits)
  from process_cells_text[OF cells pt]
  have "map_of (map (\<lambda>(column, values). (column, Text values)) csv_row) ''POINT''
    = Some (Text starting_point)" .
  then show ?thesis by (auto simp: map_of_map)
qed

lemma process_row_zero:
  assumes "process_row csv_row = Inr (starting_point, row)" and "distinct (map fst csv_row)"
    and "(k, v) \<in> set (drop 1 csv_row)" and "extract_numbers v = Inr zs" and "0 \<in> set zs"
  shows "map_of row k = None"
proof -
  from assms(1) obtain row' where
    cells: "process_cells (drop 1 csv_row) (map (\<lambda>(column, values). (column, Text values)) csv_row)
      = Inr row'"
    and row: "row = AList.delete ''POINT'' row'"
    by (auto simp: process_row_def split: sum.splits option.splits cell.splits)
  from assms(2) have "distinct (map fst (drop 1 csv_row))"
    by (simp add: distinct_drop drop_map[symmetric])
  from process_cells_zero[OF cells this assms(3,4,5)] row show ?thesis
    by (simp add: delete_conv')
qed

lemma add_rows_append:
  "add_rows (xs @ ys) c = (case add_rows xs c of Inl err \<Rightarrow> Inl err | Inr c' \<Rightarrow> add_rows ys c')"
  by (induction xs arbitrary: c) (auto split: sum.splits)

lemma add_rows_other:
  "add_rows rows c = Inr c' \<Longrightarrow> \<forall>r \<in> set rows. map_of r ''POINT'' \<noteq> Some k \<Longrightarrow>
     map_of c' k = map_of c k"
proof (induction rows arbitrary: c)
  case Nil
  then show ?case by simp
next
  case (Cons r rows)
  from Cons.prems(1) obtain sp row where pr: "process_row r = Inr (sp, row)"
    and rest: "add_rows rows (AList.update sp row c) = Inr c'"
    by (auto split: sum.splits)
  from process_row_point[OF pr] Cons.prems(2) have "sp \<noteq> k" by auto
  with Cons.IH[OF rest] Cons.prems(2) show ?case
    by (simp add: update_conv')
qed

text \<open>
  C8: when \<open>create_graph\<close> returns, take any row of the table (its columns distinct, as the
  keys of a dictionary are) and any cell of it after the first column. If the numbers read
  from the cell include a zero, the dictionary built from the row has no neighbour entry for
  the cell's column: the entry is deleted, no edge with a zero weight is stored. That
  dictionary is the entry of the row's starting point in the returned graph, unless a later
  row of the table has the same starting point and replaces it.
\<close>

theorem zero_cell_no_edge:
  assumes "create_graph (before @ csv_row # after) = Inr connections"
    and "distinct (map fst csv_row)"
    and "(ending_point, values) \<in> set (drop 1 csv_row)"
    and "extract_numbers values = Inr numbers" and "0 \<in> set numbers"
  shows "\<exists>starting_point row.
           map_of csv_row ''POINT'' = Some starting_point \<and>
           process_row csv_row = Inr (starting_point, row) \<and>
           map_of row ending_point = None \<and>
           ((\<forall>r \<in> set after. map_of r ''POINT'' \<noteq> Some starting_point) \<longrightarrow>
              map_of connections starting_point = Some row)"
proof -
  from assms(1) obtain c1 where "add_rows before [] = Inr c1"
    and tail: "add_rows (csv_row # after) c1 = Inr connections"
    by (auto simp: create_graph_def add_rows_append split: sum.splits)
  from tail obtain sp row where pr: "process_row csv_row = Inr (sp, row)"
    and rest: "add_rows after (AList.update sp row c1) = Inr connections"
    by (auto split: sum.splits)
  have "map_of connections sp = Some row" if "\<forall>r \<in> set after. map_of r ''POINT'' \<noteq> Some sp"
    using add_rows_other[OF rest that] by (simp add: update_conv')
  moreover from process_row_zero[OF pr assms(2,3,4,5)] have "map_of row ending_point = None" .
  ultimately show ?thesis using process_row_point[OF pr] pr by blast
qed

theorem zero_cell_no_edge_witness:
  "create_graph ([] @ [(''POINT'', ''A''), (''A'', ''0 0''), (''B'', ''10 20''), (''C'', ''15 7'')] #
      [[(''POINT'', ''B''), (''A'', ''10 20''), (''B'', ''0''), (''C'', ''0, 3'')]])
     = Inr [(''A'', [(''B'', Weights \<lparr>edge_distance = 10, edge_cost = 200\<rparr>),
                     (''C'', Weights \<lparr>edge_distance = 15, edge_cost = 105\<rparr>)]),
            (''B'', [(''A'', Weights \<lparr>edge_distance = 10, edge_cost = 200\<rparr>)])] \<and>
   distinct (map fst [(''POINT'', ''A''), (''A'', ''0 0''), (''B'', ''10 20''), (''C'', ''15 7'')]) \<and>
   (''A'', ''0 0'') \<in> set (drop 1 [(''POINT'', ''A''), (''A'', ''0 0''), (''B'', ''10 20''), (''C'', ''15 7'')]) \<and>
   extract_numbers ''0 0'' = Inr [0, 0] \<and> (0::int) \<in> set [0, 0] \<and>
   map_of [(''POINT'', ''B''), (''A'', ''10 20''), (''B'', ''0''), (''C'', ''0, 3'')] ''POINT''
     \<noteq> Some ''A'' \<and>
   (\<exists>row. process_row [(''POINT'', ''A''), (''A'', ''0 0''), (''B'', ''10 20''), (''C'', ''15 7'')]
            = Inr (''A'', row) \<and>
      map_of row ''A'' = None \<and>
      map_of [(''A'', [(''B'', Weights \<lparr>edge_distance = 10, edge_cost = 200\<rparr>),
                     (''C'', Weights \<lparr>edge_distance = 15, edge_cost = 105\<rparr>)]),
            (''B'', [(''A'', Weights \<lparr>edge_distance = 10, edge_cost = 200\<rparr>)])] ''A'' = Some row)"
proof -
  have c: "create_graph ([] @ [(''POINT'', ''A''), (''A'', ''0 0''), (''B'', ''10 20''), (''C'', ''15 7'')] #
      [[(''POINT'', ''B''), (''A'', ''10 20''), (''B'', ''0''), (''C'', ''0, 3'')]])
     = Inr [(''A'', [(''B'', Weights \<lparr>edge_distance = 10, edge_cost = 200\<rparr>),
                     (''C'', Weights \<lparr>edge_distance = 15, edge_cost = 105\<rparr>)]),
            (''B'', [(''A'', Weights \<lparr>edge_distance = 10, edge_cost = 200\<rparr>)])]"
    by code_simp
  have d: "distinct (map fst [(''POINT'', ''A''), (''A'', ''0 0''), (''B'', ''10 20''), (''C'', ''15 7'')])"
    by simp
  have p: "map_of [(''POINT'', ''A''), (''A'', ''0 0''), (''B'', ''10 20''), (''C'', ''15 7'')] ''POINT''
     = Some ''A''" by simp
  have a: "map_of [(''POINT'', ''B''), (''A'', ''10 20''), (''B'', ''0''), (''C'', ''0, 3'')] ''POINT''
     \<noteq> Some ''A''" by simp
  have m: "(''A'', ''0 0'') \<in> set (drop 1 [(''POINT'', ''A''), (''A'', ''0 0''), (''B'', ''10 20''), (''C'', ''15 7'')])"
    by simp
  have e: "extract_numbers ''0 0'' = Inr [0, 0]" by code_simp
  have z: "(0::int) \<in> set [0, 0]" by simp
  from zero_cell_no_edge[OF c d m e z] obtain sp row where
    f: "map_of [(''POINT'', ''A''), (''A'', ''0 0''), (''B'', ''10 20''), (''C'', ''15 7'')] ''POINT''
          = Some sp"
      "process_row [(''POINT'', ''A''), (''A'', ''0 0''), (''B'', ''10 20''), (''C'', ''15 7'')]
          = Inr (sp, row)"
      "map_of row ''A'' = None"
      "(\<forall>r \<in> set [[(''POINT'', ''B''), (''A'', ''10 20''), (''B'', ''0''), (''C'', ''0, 3'')]].
          map_of r ''POINT'' \<noteq> Some sp) \<longrightarrow>
       map_of [(''A'', [(''B'', Weights \<lparr>edge_distance = 10, edge_cost = 200\<rparr>),
                     (''C'', Weights \<lparr>edge_distance = 15, edge_cost = 105\<rparr>)]),
            (''B'', [(''A'', Weights \<lparr>edge_distance = 10, edge_cost = 200\<rparr>)])] sp = Some row"
    by blast
  from f(1) p have sp: "sp = ''A''" by simp
  have "\<forall>r \<in> set [[(''POINT'', ''B''), (''A'', ''10 20''), (''B'', ''0''), (''C'', ''0, 3'')]].
          map_of r ''POINT'' \<noteq> Some sp"
    unfolding sp by simp
  with f(4) have "map_of [(''A'', [(''B'', Weights \<lparr>edge_distance = 10, edge_cost = 200\<rparr>),
                     (''C'', Weights \<lparr>edge_distance = 15, edge_cost = 105\<rparr>)]),
            (''B'', [(''A'', Weights \<lparr>edge_distance = 10, edge_cost = 200\<rparr>)])] sp = Some row"
    by blast
  with f(2,3) c d m e z a show ?thesis unfolding sp by blast
qed

end
